theory Spec2Isabelle
  imports Complex_Main "HOL-Library.Log_Nat" "HOL-Library.Code_Target_Numeral"
begin

section \<open>Data model\<close>

text \<open>
  The tokenizer and the parser exchange Python dictionaries. A token is the dictionary
  \<^verbatim>\<open>{"tag": ..., "position": ..., "value": ...}\<close>; its tag is a string, or
  \<^verbatim>\<open>None\<close> for the end marker; its value is the matched text, a decoded number, or
  \<^verbatim>\<open>None\<close>. The dictionary key \<^verbatim>\<open>value\<close> is the field \<open>val\<close> here.

  A Python \<^verbatim>\<open>float\<close> is a double: a finite one is represented by the rational it is
  equal to. The only other float that a digit string can denote is \<^verbatim>\<open>inf\<close>.
\<close>

datatype pyfloat = Finite rat | Infinity

datatype pyvalue = VStr string | VInt int | VFloat pyfloat | VNone

record token =
  tag :: "string option"
  position :: nat
  val :: pyvalue

text \<open>
  Every exception the two source files can raise is a value:
  \<^item> \<open>SyntaxError\<close> is \<^verbatim>\<open>Exception("Syntax error")\<close> of \<^verbatim>\<open>tokenize\<close>;
  \<^item> \<open>UnexpectedToken t p\<close> is
    \<^verbatim>\<open>Exception(f"Unexpected token '{t}' at position {p}.")\<close> of \<^verbatim>\<open>parse_factor\<close>;
  \<^item> \<open>AssertionError\<close> is a failed \<^verbatim>\<open>assert\<close> (it has no message);
  \<^item> \<open>IndexError\<close> is \<^verbatim>\<open>tokens[0]\<close> on an empty list;
  \<^item> \<open>ValueError\<close> is a failed \<^verbatim>\<open>int(...)\<close> or \<^verbatim>\<open>float(...)\<close>.
\<close>

datatype error =
  SyntaxError
  | UnexpectedToken "string option" nat
  | AssertionError
  | IndexError
  | ValueError

text \<open>
  The syntax tree is a dictionary with key \<^verbatim>\<open>tag\<close>: \<^verbatim>\<open>{"tag": "number", "value": v}\<close>,
  \<^verbatim>\<open>{"tag": op, "left": l, "right": r}\<close> or \<^verbatim>\<open>{"tag": "print", "value": e}\<close>.
\<close>

datatype ast =
  Number pyvalue
  | BinaryOp string ast ast
  | Print ast

section \<open>Character classes of the regular expressions\<close>

text \<open>
  Input characters are code points below 256. In that range \<^verbatim>\<open>\d\<close> is \<^verbatim>\<open>0\<close>..\<^verbatim>\<open>9\<close>,
  and \<^verbatim>\<open>\s\<close> (Unicode whitespace of Python 3 string patterns) is the code points
  9..13, 28..32, 133 and 160. The dot matches every character but the line feed.
\<close>

definition is_digit :: "char \<Rightarrow> bool" where
  "is_digit c \<longleftrightarrow> 48 \<le> (of_char c :: nat) \<and> (of_char c :: nat) \<le> 57"

definition is_letter :: "char \<Rightarrow> bool" where
  "is_letter c \<longleftrightarrow>
     (97 \<le> (of_char c :: nat) \<and> (of_char c :: nat) \<le> 122) \<or>
     (65 \<le> (of_char c :: nat) \<and> (of_char c :: nat) \<le> 90)"

definition is_ident_start :: "char \<Rightarrow> bool" where
  "is_ident_start c \<longleftrightarrow> is_letter c \<or> c = CHR ''_''"

definition is_ident_char :: "char \<Rightarrow> bool" where
  "is_ident_char c \<longleftrightarrow> is_letter c \<or> is_digit c \<or> c = CHR ''_''"

definition is_space :: "char \<Rightarrow> bool" where
  "is_space c \<longleftrightarrow>
     (9 \<le> (of_char c :: nat) \<and> (of_char c :: nat) \<le> 13) \<or>
     (28 \<le> (of_char c :: nat) \<and> (of_char c :: nat) \<le> 32) \<or>
     (of_char c :: nat) = 133 \<or> (of_char c :: nat) = 160"

definition is_dot_char :: "char \<Rightarrow> bool" where
  "is_dot_char c \<longleftrightarrow> (of_char c :: nat) \<noteq> 10"

section \<open>The compiled patterns\<close>

text \<open>
  A compiled pattern is applied with \<^verbatim>\<open>pattern.match(characters, position)\<close>. None of the
  patterns looks behind the position, so a pattern is a function of the text that starts
  at the position; it answers the length of the match (\<^verbatim>\<open>match.end() - position\<close>), or
  \<open>None\<close> when there is no match.

  \<open>span p s\<close> is what a greedy \<^verbatim>\<open>p*\<close> takes from the front of \<open>s\<close>.
\<close>

definition span :: "(char \<Rightarrow> bool) \<Rightarrow> string \<Rightarrow> nat" where
  "span p s = length (takeWhile p s)"

text \<open>The pattern \<^verbatim>\<open>print\<close>.\<close>

definition match_print :: "string \<Rightarrow> nat option" where
  "match_print s = (if take 5 s = ''print'' then Some 5 else None)"

text \<open>
  The pattern \<^verbatim>\<open>\d*\.\d+|\d+\.\d*|\d+\<close>, alternatives tried from the left. In the first
  two alternatives the leading digit run cannot give a digit back to let \<^verbatim>\<open>\.\<close> match,
  since what it would give back is a digit; so the run is always the whole run.
\<close>

definition match_number :: "string \<Rightarrow> nat option" where
  "match_number s =
     (let n = span is_digit s;
          after = drop n s;
          m = span is_digit (drop 1 after)
      in if take 1 after = ''.'' \<and> 0 < m then Some (n + 1 + m)
         else if 0 < n \<and> take 1 after = ''.'' then Some (n + 1 + m)
         else if 0 < n then Some n
         else None)"

text \<open>The pattern \<^verbatim>\<open>[a-zA-Z_][a-zA-Z0-9_]*\<close>.\<close>

definition match_identifier :: "string \<Rightarrow> nat option" where
  "match_identifier s =
     (case s of
        [] \<Rightarrow> None
      | c # r \<Rightarrow> if is_ident_start c then Some (1 + span is_ident_char r) else None)"

text \<open>The one-character patterns \<^verbatim>\<open>\+\<close>, \<^verbatim>\<open>\-\<close>, \<^verbatim>\<open>\*\<close>, \<^verbatim>\<open>\/\<close>, \<^verbatim>\<open>\(\<close>, \<^verbatim>\<open>\)\<close>.\<close>

definition match_char :: "char \<Rightarrow> string \<Rightarrow> nat option" where
  "match_char x s =
     (case s of
        [] \<Rightarrow> None
      | c # r \<Rightarrow> if c = x then Some 1 else None)"

text \<open>The pattern \<^verbatim>\<open>\s+\<close>.\<close>

definition match_whitespace :: "string \<Rightarrow> nat option" where
  "match_whitespace s = (let n = span is_space s in if 0 < n then Some n else None)"

text \<open>The pattern \<^verbatim>\<open>.\<close>.\<close>

definition match_any :: "string \<Rightarrow> nat option" where
  "match_any s =
     (case s of
        [] \<Rightarrow> None
      | c # r \<Rightarrow> if is_dot_char c then Some 1 else None)"

definition patterns :: "((string \<Rightarrow> nat option) \<times> string) list" where
  "patterns =
     [(match_print, ''print''),
      (match_number, ''number''),
      (match_identifier, ''identifier''),
      (match_char CHR ''+'', ''+''),
      (match_char CHR ''-'', ''-''),
      (match_char CHR ''*'', ''*''),
      (match_char CHR ''/'', ''/''),
      (match_char CHR ''('', ''(''),
      (match_char CHR '')'', '')''),
      (match_whitespace, ''whitespace''),
      (match_any, ''error'')]"

text \<open>
  The \<^verbatim>\<open>for pattern, tag in patterns\<close> loop with its \<^verbatim>\<open>break\<close>: the answer is the
  \<^verbatim>\<open>match\<close> and the \<^verbatim>\<open>tag\<close> of the last iteration that ran, which is the first
  matching rule, or the last rule with no match.
\<close>

fun try_patterns :: "((string \<Rightarrow> nat option) \<times> string) list \<Rightarrow> string \<Rightarrow> nat option \<times> string" where
  "try_patterns [] s = (None, [])"
| "try_patterns [(p, t)] s = (p s, t)"
| "try_patterns ((p, t) # ps) s =
     (case p s of
        Some n \<Rightarrow> (Some n, t)
      | None \<Rightarrow> try_patterns ps s)"

section \<open>Decoding numbers\<close>

text \<open>
  \<^verbatim>\<open>int(text)\<close> and \<^verbatim>\<open>float(text)\<close> on the texts the number pattern can match: a
  digit string, or digit strings around one decimal point, not both empty. Other texts
  answer \<open>ValueError\<close>.

  \<^verbatim>\<open>int\<close> answers the exact value of the digits, but refuses a text of more than 4300
  digits with a \<^verbatim>\<open>ValueError\<close>: this is the interpreter's default limit on the
  conversion of integer strings (\<^verbatim>\<open>sys.int_info.default_max_str_digits\<close>), and leading
  zeros count.
\<close>

definition digit_value :: "char \<Rightarrow> nat" where
  "digit_value c = (of_char c :: nat) - 48"

definition digits_value :: "string \<Rightarrow> nat" where
  "digits_value s = foldl (\<lambda>a c. 10 * a + digit_value c) 0 s"

definition py_int :: "string \<Rightarrow> error + int" where
  "py_int text =
     (if text \<noteq> [] \<and> list_all is_digit text \<and> length text \<le> 4300
      then Inr (int (digits_value text))
      else Inl ValueError)"

text \<open>
  \<^verbatim>\<open>float\<close> answers the double nearest to the exact value \<open>a / b\<close> of the text, ties
  going to the even mantissa; there is no limit on the length of the text.
  \<open>binary_exponent a b\<close> is the integer part of the binary logarithm of \<open>a / b\<close>. A double
  is a multiple \<open>m * 2 ^ e\<close> of the power of two that leaves 53 bits to the mantissa, and
  \<open>e\<close> is not below -1074, where the subnormal numbers are; what rounds to \<open>2 ^ 1024\<close> or
  above is \<^verbatim>\<open>inf\<close>.
\<close>

definition round_half_even :: "nat \<Rightarrow> nat \<Rightarrow> nat" where
  "round_half_even a b =
     (let q = a div b; r = a mod b
      in if 2 * r < b then q
         else if b < 2 * r then q + 1
         else if even q then q else q + 1)"

definition binary_exponent :: "nat \<Rightarrow> nat \<Rightarrow> int" where
  "binary_exponent a b =
     (let k = bitlen (int a) - bitlen (int b)
      in if b * 2 ^ nat k \<le> a * 2 ^ nat (- k) then k else k - 1)"

definition double_of :: "nat \<Rightarrow> nat \<Rightarrow> pyfloat" where
  "double_of a b =
     (if a = 0 then Finite 0
      else
        let e = max (binary_exponent a b - 52) (- 1074);
            m = round_half_even (a * 2 ^ nat (- e)) (b * 2 ^ nat e);
            v = of_nat m * 2 ^ nat e / 2 ^ nat (- e)
        in if 2 ^ 1024 \<le> v then Infinity else Finite v)"

definition py_float :: "string \<Rightarrow> error + pyfloat" where
  "py_float text =
     (let ip = takeWhile (\<lambda>c. c \<noteq> CHR ''.'') text;
          fp = drop (length ip + 1) text
      in if CHR ''.'' \<in> set text \<and> list_all is_digit ip \<and> list_all is_digit fp \<and> (ip \<noteq> [] \<or> fp \<noteq> [])
         then Inr (double_of (digits_value (ip @ fp)) (10 ^ length fp))
         else Inl ValueError)"

text \<open>
  The conversion of \<^verbatim>\<open>token["value"]\<close>: a number's text becomes a float when it holds a
  decimal point and an int otherwise; every other token keeps its text.
\<close>

definition decode :: "string \<Rightarrow> string \<Rightarrow> error + pyvalue" where
  "decode t text =
     (if t = ''number'' then
        (if CHR ''.'' \<in> set text then
           (case py_float text of Inl e \<Rightarrow> Inl e | Inr q \<Rightarrow> Inr (VFloat q))
         else
           (case py_int text of Inl e \<Rightarrow> Inl e | Inr i \<Rightarrow> Inr (VInt i)))
      else Inr (VStr text))"

section \<open>The tokenizer\<close>

lemma span_le: "span p s \<le> length s"
  by (simp add: span_def length_takeWhile_le)

lemma match_print_bounds: "match_print s = Some n \<Longrightarrow> 0 < n \<and> n \<le> length s"
proof -
  assume h: "match_print s = Some n"
  then have t: "take 5 s = ''print''" and n: "n = 5"
    by (auto simp: match_print_def split: if_splits)
  from t have "length (take 5 s) = 5" by simp
  then have "5 \<le> length s" by simp
  with n show ?thesis by simp
qed

lemma match_number_bounds: "match_number s = Some n \<Longrightarrow> 0 < n \<and> n \<le> length s"
proof -
  assume h: "match_number s = Some n"
  let ?d = "span is_digit s"
  let ?after = "drop ?d s"
  let ?m = "span is_digit (drop 1 ?after)"
  have d: "?d \<le> length s" by (rule span_le)
  have m: "?m \<le> length (drop 1 ?after)" by (rule span_le)
  have dot: "take 1 ?after = ''.'' \<Longrightarrow> ?d + 1 + ?m \<le> length s"
  proof -
    assume "take 1 ?after = ''.''"
    then have "?after \<noteq> []" by auto
    then have "?d < length s" by simp
    with m show ?thesis by simp
  qed
  from h dot d show ?thesis
    by (auto simp: match_number_def Let_def split: if_splits)
qed

lemma match_identifier_bounds: "match_identifier s = Some n \<Longrightarrow> 0 < n \<and> n \<le> length s"
  using span_le [of is_ident_char "tl s"]
  by (auto simp: match_identifier_def split: list.splits if_splits)

lemma match_char_bounds: "match_char x s = Some n \<Longrightarrow> 0 < n \<and> n \<le> length s"
  by (auto simp: match_char_def split: list.splits if_splits)

lemma match_whitespace_bounds: "match_whitespace s = Some n \<Longrightarrow> 0 < n \<and> n \<le> length s"
  using span_le [of is_space s]
  by (auto simp: match_whitespace_def Let_def split: if_splits)

lemma match_any_bounds: "match_any s = Some n \<Longrightarrow> 0 < n \<and> n \<le> length s"
  by (auto simp: match_any_def split: list.splits if_splits)

lemma try_patterns_bounds_gen:
  "\<forall>(p, t) \<in> set ps. \<forall>n. p s = Some n \<longrightarrow> 0 < n \<and> n \<le> length s \<Longrightarrow>
   try_patterns ps s = (Some n, t) \<Longrightarrow> 0 < n \<and> n \<le> length s"
  by (induction ps s rule: try_patterns.induct) (auto split: option.splits)

lemma try_patterns_bounds:
  "try_patterns patterns s = (Some n, t) \<Longrightarrow> 0 < n \<and> n \<le> length s"
proof (rule try_patterns_bounds_gen)
  show "\<forall>(p, t) \<in> set patterns. \<forall>n. p s = Some n \<longrightarrow> 0 < n \<and> n \<le> length s"
    using match_print_bounds match_number_bounds match_identifier_bounds
      match_char_bounds match_whitespace_bounds match_any_bounds
    by (simp add: patterns_def)
qed

text \<open>
  The \<^verbatim>\<open>while position < len(characters)\<close> loop of \<^verbatim>\<open>tokenize\<close>, with the list
  \<^verbatim>\<open>tokens\<close> built so far. A whitespace match moves the position and appends nothing.
\<close>

function tokenize_loop :: "string \<Rightarrow> nat \<Rightarrow> token list \<Rightarrow> error + token list" where
  "tokenize_loop characters pos tokens =
     (if pos < length characters then
        (case try_patterns patterns (drop pos characters) of
           (None, t) \<Rightarrow> Inl AssertionError
         | (Some n, t) \<Rightarrow>
             if t = ''error'' then Inl SyntaxError
             else
               (case decode t (take n (drop pos characters)) of
                  Inl e \<Rightarrow> Inl e
                | Inr v \<Rightarrow>
                    tokenize_loop characters (pos + n)
                      (if t \<noteq> ''whitespace''
                       then tokens @ [\<lparr>tag = Some t, position = pos, val = v\<rparr>]
                       else tokens)))
      else Inr (tokens @ [\<lparr>tag = None, position = pos, val = VNone\<rparr>]))"
  by pat_completeness auto
termination
  apply (relation "measure (\<lambda>(characters, pos, tokens). length characters - pos)")
   apply simp
  apply (auto dest!: try_patterns_bounds try_patterns_bounds [OF sym])
  done

declare tokenize_loop.simps [simp del]

definition tokenize :: "string \<Rightarrow> error + token list" where
  "tokenize characters = tokenize_loop characters 0 []"

text \<open>
  The values the variable \<^verbatim>\<open>position\<close> takes at the head of the \<^verbatim>\<open>while\<close> loop: it
  starts at 0, and a turn that does not raise moves it to \<^verbatim>\<open>match.end()\<close>.
\<close>

inductive scan_position :: "string \<Rightarrow> nat \<Rightarrow> bool" for characters where
  scan_start: "scan_position characters 0"
| scan_next:
    "scan_position characters pos \<Longrightarrow> pos < length characters \<Longrightarrow>
     try_patterns patterns (drop pos characters) = (Some n, t) \<Longrightarrow> t \<noteq> ''error'' \<Longrightarrow>
     decode t (take n (drop pos characters)) = Inr v \<Longrightarrow>
     q = pos + n \<Longrightarrow> scan_position characters q"

code_pred scan_position .

section \<open>The parser\<close>

text \<open>
  Each grammar function takes the token list and answers the tree and the tokens left.
  \<^verbatim>\<open>tokens[0]\<close> on an empty list is an \<open>IndexError\<close>; \<^verbatim>\<open>tokens[1:]\<close> is the tail.
  The \<^verbatim>\<open>while\<close> loops of \<^verbatim>\<open>parse_term\<close> and \<^verbatim>\<open>parse_expression\<close> are
  \<open>parse_term_loop\<close> and \<open>parse_expression_loop\<close>, whose first argument is the
  variable \<^verbatim>\<open>node\<close>.

  The call stack is not part of the model: the functions call each other as deep as the
  parentheses of the input nest, while the interpreter stops a deeper recursion than its
  limit allows with a \<^verbatim>\<open>RecursionError\<close>. The results below are about the
  exceptions that the statements of the parser raise.
\<close>

function parse_factor :: "token list \<Rightarrow> error + (ast \<times> token list)"
  and parse_term_loop :: "ast \<Rightarrow> token list \<Rightarrow> error + (ast \<times> token list)"
  and parse_term :: "token list \<Rightarrow> error + (ast \<times> token list)"
  and parse_expression_loop :: "ast \<Rightarrow> token list \<Rightarrow> error + (ast \<times> token list)"
  and parse_expression :: "token list \<Rightarrow> error + (ast \<times> token list)"
where
  "parse_factor [] = Inl IndexError"
| "parse_factor (token # rest) =
     (if tag token = Some ''number'' then Inr (Number (val token), rest)
      else if tag token = Some ''('' then
        (case parse_expression rest of
           Inl e \<Rightarrow> Inl e
         | Inr (node, tokens) \<Rightarrow>
             (case tokens of
                [] \<Rightarrow> Inl IndexError
              | t # tokens' \<Rightarrow>
                  if tag t = Some '')'' then Inr (node, tokens') else Inl AssertionError))
      else Inl (UnexpectedToken (tag token) (position token)))"
| "parse_term_loop node [] = Inl IndexError"
| "parse_term_loop node (t # rest) =
     (case tag t of
        None \<Rightarrow> Inr (node, t # rest)
      | Some op \<Rightarrow>
          if op \<in> set [''*'', ''/''] then
            (case parse_factor rest of
               Inl e \<Rightarrow> Inl e
             | Inr (right_node, tokens) \<Rightarrow> parse_term_loop (BinaryOp op node right_node) tokens)
          else Inr (node, t # rest))"
| "parse_term tokens =
     (case parse_factor tokens of
        Inl e \<Rightarrow> Inl e
      | Inr (node, tokens') \<Rightarrow> parse_term_loop node tokens')"
| "parse_expression_loop node [] = Inl IndexError"
| "parse_expression_loop node (t # rest) =
     (case tag t of
        None \<Rightarrow> Inr (node, t # rest)
      | Some op \<Rightarrow>
          if op \<in> set [''+'', ''-''] then
            (case parse_term rest of
               Inl e \<Rightarrow> Inl e
             | Inr (right_node, tokens) \<Rightarrow> parse_expression_loop (BinaryOp op node right_node) tokens)
          else Inr (node, t # rest))"
| "parse_expression tokens =
     (case parse_term tokens of
        Inl e \<Rightarrow> Inl e
      | Inr (node, tokens') \<Rightarrow> parse_expression_loop node tokens')"
  by pat_completeness auto

text \<open>
  What a call leaves is shorter than what it was given; a loop leaves no more than it was
  given. This is what makes the recursion end.
\<close>

lemma parse_shrinks_partial:
  "parse_factor_parse_term_loop_parse_term_parse_expression_loop_parse_expression_dom (Inl (Inl ts)) \<Longrightarrow>
     (\<forall>a r. parse_factor ts = Inr (a, r) \<longrightarrow> length r < length ts)"
  "parse_factor_parse_term_loop_parse_term_parse_expression_loop_parse_expression_dom (Inl (Inr (nd, ts))) \<Longrightarrow>
     (\<forall>a r. parse_term_loop nd ts = Inr (a, r) \<longrightarrow> length r \<le> length ts)"
  "parse_factor_parse_term_loop_parse_term_parse_expression_loop_parse_expression_dom (Inr (Inl ts)) \<Longrightarrow>
     (\<forall>a r. parse_term ts = Inr (a, r) \<longrightarrow> length r < length ts)"
  "parse_factor_parse_term_loop_parse_term_parse_expression_loop_parse_expression_dom (Inr (Inr (Inl (nd, ts)))) \<Longrightarrow>
     (\<forall>a r. parse_expression_loop nd ts = Inr (a, r) \<longrightarrow> length r \<le> length ts)"
  "parse_factor_parse_term_loop_parse_term_parse_expression_loop_parse_expression_dom (Inr (Inr (Inr ts))) \<Longrightarrow>
     (\<forall>a r. parse_expression ts = Inr (a, r) \<longrightarrow> length r < length ts)"
proof (induct rule: parse_factor_parse_term_loop_parse_term_parse_expression_loop_parse_expression.pinduct)
  case 1
  then show ?case by (simp add: parse_factor.psimps)
next
  case (2 token rest)
  then show ?case
    by (auto simp: parse_factor.psimps split: if_splits sum.splits prod.splits list.splits)
next
  case (3 node)
  then show ?case by (simp add: parse_term_loop.psimps)
next
  case (4 node t rest)
  then show ?case
    by (auto simp: parse_term_loop.psimps split: if_splits sum.splits prod.splits option.splits) (fastforce+)?
next
  case (5 tokens)
  then show ?case
    by (auto simp: parse_term.psimps split: sum.splits prod.splits) (fastforce+)?
next
  case (6 node)
  then show ?case by (simp add: parse_expression_loop.psimps)
next
  case (7 node t rest)
  then show ?case
    by (auto simp: parse_expression_loop.psimps split: if_splits sum.splits prod.splits option.splits) (fastforce+)?
next
  case (8 tokens)
  then show ?case
    by (auto simp: parse_expression.psimps split: sum.splits prod.splits) (fastforce+)?
qed

termination parse_factor
  apply (relation "measure (\<lambda>x. case x of
      Inl (Inl ts) \<Rightarrow> 5 * length ts
    | Inl (Inr (nd, ts)) \<Rightarrow> 5 * length ts + 1
    | Inr (Inl ts) \<Rightarrow> 5 * length ts + 2
    | Inr (Inr (Inl (nd, ts))) \<Rightarrow> 5 * length ts + 3
    | Inr (Inr (Inr ts)) \<Rightarrow> 5 * length ts + 4)")
  apply simp_all
  apply (auto dest: parse_shrinks_partial [rule_format])
  done

text \<open>\<^verbatim>\<open>parse_statement\<close> and the entry point \<^verbatim>\<open>parse\<close>, which drops the tokens left.\<close>

definition parse_statement :: "token list \<Rightarrow> error + (ast \<times> token list)" where
  "parse_statement tokens =
     (case tokens of
        [] \<Rightarrow> Inl IndexError
      | t # rest \<Rightarrow>
          if tag t = Some ''print'' then
            (case parse_expression rest of
               Inl e \<Rightarrow> Inl e
             | Inr (value_ast, tokens') \<Rightarrow> Inr (Print value_ast, tokens'))
          else parse_expression tokens)"

definition parse :: "token list \<Rightarrow> error + ast" where
  "parse tokens =
     (case parse_statement tokens of
        Inl e \<Rightarrow> Inl e
      | Inr (ast, tokens') \<Rightarrow> Inr ast)"

section \<open>Facts about the parser\<close>

lemma parse_shrinks:
  "\<forall>a r. parse_factor ts1 = Inr (a, r) \<longrightarrow> length r < length ts1"
  "\<forall>a r. parse_term_loop nd2 ts2 = Inr (a, r) \<longrightarrow> length r \<le> length ts2"
  "\<forall>a r. parse_term ts3 = Inr (a, r) \<longrightarrow> length r < length ts3"
  "\<forall>a r. parse_expression_loop nd4 ts4 = Inr (a, r) \<longrightarrow> length r \<le> length ts4"
  "\<forall>a r. parse_expression ts5 = Inr (a, r) \<longrightarrow> length r < length ts5"
proof (induct ts1 and nd2 ts2 and ts3 and nd4 ts4 and ts5
    rule: parse_factor_parse_term_loop_parse_term_parse_expression_loop_parse_expression.induct)
  case 1
  then show ?case by simp
next
  case (2 token rest)
  then show ?case
    by (auto split: if_splits sum.splits prod.splits list.splits)
next
  case (3 node)
  then show ?case by simp
next
  case (4 node t rest)
  then show ?case
    by (auto split: if_splits sum.splits prod.splits option.splits) (fastforce+)?
next
  case (5 tokens)
  then show ?case
    by (auto split: sum.splits prod.splits) (fastforce+)?
next
  case (6 node)
  then show ?case by simp
next
  case (7 node t rest)
  then show ?case
    by (auto split: if_splits sum.splits prod.splits option.splits) (fastforce+)?
next
  case (8 tokens)
  then show ?case
    by (auto split: sum.splits prod.splits) (fastforce+)?
qed

lemma parse_factor_shrinks: "parse_factor ts = Inr (a, r) \<Longrightarrow> length r < length ts"
  using parse_shrinks(1) by blast

lemma parse_term_loop_shrinks: "parse_term_loop nd ts = Inr (a, r) \<Longrightarrow> length r \<le> length ts"
  using parse_shrinks(2) by blast

lemma parse_term_shrinks: "parse_term ts = Inr (a, r) \<Longrightarrow> length r < length ts"
  using parse_shrinks(3) by blast

lemma parse_expression_loop_shrinks:
  "parse_expression_loop nd ts = Inr (a, r) \<Longrightarrow> length r \<le> length ts"
  using parse_shrinks(4) by blast

lemma parse_expression_shrinks: "parse_expression ts = Inr (a, r) \<Longrightarrow> length r < length ts"
  using parse_shrinks(5) by blast

declare parse_term.simps [simp del] parse_expression.simps [simp del]

text \<open>One turn of each loop, and the ways a loop stops.\<close>

lemma parse_term_loop_step:
  "tag t = Some op \<Longrightarrow> op \<in> set [''*'', ''/''] \<Longrightarrow> parse_factor rest = Inr (right_node, tokens') \<Longrightarrow>
   parse_term_loop node (t # rest) = parse_term_loop (BinaryOp op node right_node) tokens'"
  by simp

lemma parse_expression_loop_step:
  "tag t = Some op \<Longrightarrow> op \<in> set [''+'', ''-''] \<Longrightarrow> parse_term rest = Inr (right_node, tokens') \<Longrightarrow>
   parse_expression_loop node (t # rest) = parse_expression_loop (BinaryOp op node right_node) tokens'"
  by simp

text \<open>
  The tree a loop returns is the tree it was started with, wrapped from the left: every
  new node takes the tree built so far as its left child.
\<close>

lemma parse_term_loop_spine:
  "parse_term_loop node tokens = Inr (a, r) \<Longrightarrow>
   \<exists>ops. a = foldl (\<lambda>l (op, rt). BinaryOp op l rt) node ops \<and> fst ` set ops \<subseteq> {''*'', ''/''}"
proof (induction "length tokens" arbitrary: node tokens rule: less_induct)
  case less
  show ?case
  proof (cases tokens)
    case Nil
    with less.prems show ?thesis by simp
  next
    case (Cons t rest)
    show ?thesis
    proof (cases "\<exists>op. tag t = Some op \<and> op \<in> set [''*'', ''/'']")
      case False
      with less.prems Cons have "a = node"
        by (auto split: option.splits if_splits)
      then have "a = foldl (\<lambda>l (op, rt). BinaryOp op l rt) node [] \<and> fst ` set [] \<subseteq> {''*'', ''/''}"
        by simp
      then show ?thesis by blast
    next
      case True
      then obtain op where op: "tag t = Some op" "op \<in> set [''*'', ''/'']" by blast
      from less.prems Cons op obtain rn tk where
        f: "parse_factor rest = Inr (rn, tk)" and
        l: "parse_term_loop (BinaryOp op node rn) tk = Inr (a, r)"
        by (auto split: sum.splits)
      from f have "length tk < length rest" by (rule parse_factor_shrinks)
      with Cons have "length tk < length tokens" by simp
      from less.hyps [OF this l] obtain ops where
        ops: "a = foldl (\<lambda>l (op, rt). BinaryOp op l rt) (BinaryOp op node rn) ops"
             "fst ` set ops \<subseteq> {''*'', ''/''}"
        by blast
      from ops op have
        "a = foldl (\<lambda>l (op, rt). BinaryOp op l rt) node ((op, rn) # ops) \<and>
         fst ` set ((op, rn) # ops) \<subseteq> {''*'', ''/''}"
        by auto
      then show ?thesis by blast
    qed
  qed
qed

lemma parse_expression_loop_spine:
  "parse_expression_loop node tokens = Inr (a, r) \<Longrightarrow>
   \<exists>ops. a = foldl (\<lambda>l (op, rt). BinaryOp op l rt) node ops \<and> fst ` set ops \<subseteq> {''+'', ''-''}"
proof (induction "length tokens" arbitrary: node tokens rule: less_induct)
  case less
  show ?case
  proof (cases tokens)
    case Nil
    with less.prems show ?thesis by simp
  next
    case (Cons t rest)
    show ?thesis
    proof (cases "\<exists>op. tag t = Some op \<and> op \<in> set [''+'', ''-'']")
      case False
      with less.prems Cons have "a = node"
        by (auto split: option.splits if_splits)
      then have "a = foldl (\<lambda>l (op, rt). BinaryOp op l rt) node [] \<and> fst ` set [] \<subseteq> {''+'', ''-''}"
        by simp
      then show ?thesis by blast
    next
      case True
      then obtain op where op: "tag t = Some op" "op \<in> set [''+'', ''-'']" by blast
      from less.prems Cons op obtain rn tk where
        f: "parse_term rest = Inr (rn, tk)" and
        l: "parse_expression_loop (BinaryOp op node rn) tk = Inr (a, r)"
        by (auto split: sum.splits)
      from f have "length tk < length rest" by (rule parse_term_shrinks)
      with Cons have "length tk < length tokens" by simp
      from less.hyps [OF this l] obtain ops where
        ops: "a = foldl (\<lambda>l (op, rt). BinaryOp op l rt) (BinaryOp op node rn) ops"
             "fst ` set ops \<subseteq> {''+'', ''-''}"
        by blast
      from ops op have
        "a = foldl (\<lambda>l (op, rt). BinaryOp op l rt) node ((op, rn) # ops) \<and>
         fst ` set ((op, rn) # ops) \<subseteq> {''+'', ''-''}"
        by auto
      then show ?thesis by blast
    qed
  qed
qed

text \<open>
  A call reads the tokens it consumes and, except for \<open>parse_factor\<close>, the one token
  after them; what follows that token has no part in the result. So the tokens left can be
  exchanged for any others.
\<close>

lemma parse_local:
  "\<forall>a r. parse_factor ts1 = Inr (a, r) \<longrightarrow>
     (\<exists>pre. ts1 = pre @ r \<and> (\<forall>g. parse_factor (pre @ g) = Inr (a, g)))"
  "\<forall>a r. parse_term_loop nd2 ts2 = Inr (a, r) \<longrightarrow>
     (\<exists>pre t r'. ts2 = pre @ t # r' \<and> r = t # r' \<and>
        (\<forall>g. parse_term_loop nd2 (pre @ t # g) = Inr (a, t # g)))"
  "\<forall>a r. parse_term ts3 = Inr (a, r) \<longrightarrow>
     (\<exists>pre t r'. ts3 = pre @ t # r' \<and> r = t # r' \<and>
        (\<forall>g. parse_term (pre @ t # g) = Inr (a, t # g)))"
  "\<forall>a r. parse_expression_loop nd4 ts4 = Inr (a, r) \<longrightarrow>
     (\<exists>pre t r'. ts4 = pre @ t # r' \<and> r = t # r' \<and>
        (\<forall>g. parse_expression_loop nd4 (pre @ t # g) = Inr (a, t # g)))"
  "\<forall>a r. parse_expression ts5 = Inr (a, r) \<longrightarrow>
     (\<exists>pre t r'. ts5 = pre @ t # r' \<and> r = t # r' \<and>
        (\<forall>g. parse_expression (pre @ t # g) = Inr (a, t # g)))"
proof (induct ts1 and nd2 ts2 and ts3 and nd4 ts4 and ts5
    rule: parse_factor_parse_term_loop_parse_term_parse_expression_loop_parse_expression.induct)
  case 1
  show ?case by simp
next
  case (2 token rest)
  show ?case
  proof (intro allI impI)
    fix a r
    assume res: "parse_factor (token # rest) = Inr (a, r)"
    show "\<exists>pre. token # rest = pre @ r \<and> (\<forall>g. parse_factor (pre @ g) = Inr (a, g))"
    proof (cases "tag token = Some ''number''")
      case True
      with res have "a = Number (val token)" "r = rest" by auto
      with True have
        "token # rest = [token] @ r \<and> (\<forall>g. parse_factor ([token] @ g) = Inr (a, g))"
        by simp
      then show ?thesis by blast
    next
      case False
      with res have paren: "tag token = Some ''(''"
        by (auto split: if_splits)
      with res False obtain t' where
        e: "parse_expression rest = Inr (a, t' # r)" and close: "tag t' = Some '')''"
        by (auto split: sum.splits prod.splits list.splits if_splits)
      from "2.hyps" [OF False paren] e obtain pre t r' where
        p: "rest = pre @ t # r'" "t' # r = t # r'"
           "\<forall>g. parse_expression (pre @ t # g) = Inr (a, t # g)"
        by blast
      from p(2) have tt: "t = t'" "r' = r" by simp_all
      have "\<forall>g. parse_factor ((token # pre @ [t']) @ g) = Inr (a, g)"
        using False paren close p(3) tt by simp
      moreover have "token # rest = (token # pre @ [t']) @ r"
        using p(1) tt by simp
      ultimately show ?thesis by blast
    qed
  qed
next
  case (3 node)
  show ?case by simp
next
  case (4 node t rest)
  show ?case
  proof (intro allI impI)
    fix a r
    assume res: "parse_term_loop node (t # rest) = Inr (a, r)"
    show "\<exists>pre u r'. t # rest = pre @ u # r' \<and> r = u # r' \<and>
            (\<forall>g. parse_term_loop node (pre @ u # g) = Inr (a, u # g))"
    proof (cases "\<exists>op. tag t = Some op \<and> op \<in> set [''*'', ''/'']")
      case False
      with res have ar: "a = node" "r = t # rest"
        by (auto split: option.splits if_splits)
      from False have "\<forall>g. parse_term_loop node ([] @ t # g) = Inr (node, t # g)"
        by (auto split: option.splits)
      with ar have
        "t # rest = [] @ t # rest \<and> r = t # rest \<and>
         (\<forall>g. parse_term_loop node ([] @ t # g) = Inr (a, t # g))"
        by simp
      then show ?thesis by blast
    next
      case True
      then obtain op where op: "tag t = Some op" "op \<in> set [''*'', ''/'']" by blast
      from res op obtain rn tk where
        f: "parse_factor rest = Inr (rn, tk)" and
        l: "parse_term_loop (BinaryOp op node rn) tk = Inr (a, r)"
        by (auto split: sum.splits)
      from "4.hyps"(1) [OF op] f obtain pre1 where
        p1: "rest = pre1 @ tk" "\<forall>g. parse_factor (pre1 @ g) = Inr (rn, g)"
        by blast
      from "4.hyps"(2) [OF op f refl] l obtain pre2 u r' where
        p2: "tk = pre2 @ u # r'" "r = u # r'"
            "\<forall>g. parse_term_loop (BinaryOp op node rn) (pre2 @ u # g) = Inr (a, u # g)"
        by blast
      have "\<forall>g. parse_term_loop node ((t # pre1 @ pre2) @ u # g) = Inr (a, u # g)"
      proof
        fix g
        from p1(2) have "parse_factor (pre1 @ (pre2 @ u # g)) = Inr (rn, pre2 @ u # g)"
          by blast
        with op p2(3) show "parse_term_loop node ((t # pre1 @ pre2) @ u # g) = Inr (a, u # g)"
          by simp
      qed
      moreover have "t # rest = (t # pre1 @ pre2) @ u # r'"
        using p1(1) p2(1) by simp
      ultimately show ?thesis using p2(2) by blast
    qed
  qed
next
  case (5 tokens)
  show ?case
  proof (intro allI impI)
    fix a r
    assume res: "parse_term tokens = Inr (a, r)"
    then obtain nd tk where
      f: "parse_factor tokens = Inr (nd, tk)" and l: "parse_term_loop nd tk = Inr (a, r)"
      by (auto simp: parse_term.simps split: sum.splits)
    from "5.hyps"(1) f obtain pre1 where
      p1: "tokens = pre1 @ tk" "\<forall>g. parse_factor (pre1 @ g) = Inr (nd, g)"
      by blast
    from "5.hyps"(2) [OF f refl] l obtain pre2 u r' where
      p2: "tk = pre2 @ u # r'" "r = u # r'"
          "\<forall>g. parse_term_loop nd (pre2 @ u # g) = Inr (a, u # g)"
      by blast
    have "\<forall>g. parse_term ((pre1 @ pre2) @ u # g) = Inr (a, u # g)"
    proof
      fix g
      from p1(2) have "parse_factor (pre1 @ (pre2 @ u # g)) = Inr (nd, pre2 @ u # g)"
        by blast
      with p2(3) show "parse_term ((pre1 @ pre2) @ u # g) = Inr (a, u # g)"
        by (simp add: parse_term.simps)
    qed
    moreover have "tokens = (pre1 @ pre2) @ u # r'"
      using p1(1) p2(1) by simp
    ultimately show
      "\<exists>pre u r'. tokens = pre @ u # r' \<and> r = u # r' \<and>
         (\<forall>g. parse_term (pre @ u # g) = Inr (a, u # g))"
      using p2(2) by blast
  qed
next
  case (6 node)
  show ?case by simp
next
  case (7 node t rest)
  show ?case
  proof (intro allI impI)
    fix a r
    assume res: "parse_expression_loop node (t # rest) = Inr (a, r)"
    show "\<exists>pre u r'. t # rest = pre @ u # r' \<and> r = u # r' \<and>
            (\<forall>g. parse_expression_loop node (pre @ u # g) = Inr (a, u # g))"
    proof (cases "\<exists>op. tag t = Some op \<and> op \<in> set [''+'', ''-'']")
      case False
      with res have ar: "a = node" "r = t # rest"
        by (auto split: option.splits if_splits)
      from False have "\<forall>g. parse_expression_loop node ([] @ t # g) = Inr (node, t # g)"
        by (auto split: option.splits)
      with ar have
        "t # rest = [] @ t # rest \<and> r = t # rest \<and>
         (\<forall>g. parse_expression_loop node ([] @ t # g) = Inr (a, t # g))"
        by simp
      then show ?thesis by blast
    next
      case True
      then obtain op where op: "tag t = Some op" "op \<in> set [''+'', ''-'']" by blast
      from res op obtain rn tk where
        f: "parse_term rest = Inr (rn, tk)" and
        l: "parse_expression_loop (BinaryOp op node rn) tk = Inr (a, r)"
        by (auto split: sum.splits)
      from "7.hyps"(1) [OF op] f obtain pre1 v q where
        p1: "rest = pre1 @ v # q" "tk = v # q"
            "\<forall>g. parse_term (pre1 @ v # g) = Inr (rn, v # g)"
        by blast
      from "7.hyps"(2) [OF op f refl] l obtain pre2 u r' where
        p2: "tk = pre2 @ u # r'" "r = u # r'"
            "\<forall>g. parse_expression_loop (BinaryOp op node rn) (pre2 @ u # g) = Inr (a, u # g)"
        by blast
      have "\<forall>g. parse_expression_loop node ((t # pre1 @ pre2) @ u # g) = Inr (a, u # g)"
      proof
        fix g
        from p1(2) p2(1) obtain w where w: "pre2 @ u # g = v # w"
          by (cases pre2) auto
        from p1(3) have "parse_term (pre1 @ v # w) = Inr (rn, v # w)"
          by blast
        with w have "parse_term (pre1 @ (pre2 @ u # g)) = Inr (rn, pre2 @ u # g)"
          by simp
        with op p2(3)
        show "parse_expression_loop node ((t # pre1 @ pre2) @ u # g) = Inr (a, u # g)"
          by simp
      qed
      moreover have "t # rest = (t # pre1 @ pre2) @ u # r'"
        using p1(1,2) p2(1) by simp
      ultimately show ?thesis using p2(2) by blast
    qed
  qed
next
  case (8 tokens)
  show ?case
  proof (intro allI impI)
    fix a r
    assume res: "parse_expression tokens = Inr (a, r)"
    then obtain nd tk where
      f: "parse_term tokens = Inr (nd, tk)" and l: "parse_expression_loop nd tk = Inr (a, r)"
      by (auto simp: parse_expression.simps split: sum.splits)
    from "8.hyps"(1) f obtain pre1 v q where
      p1: "tokens = pre1 @ v # q" "tk = v # q"
          "\<forall>g. parse_term (pre1 @ v # g) = Inr (nd, v # g)"
      by blast
    from "8.hyps"(2) [OF f refl] l obtain pre2 u r' where
      p2: "tk = pre2 @ u # r'" "r = u # r'"
          "\<forall>g. parse_expression_loop nd (pre2 @ u # g) = Inr (a, u # g)"
      by blast
    have "\<forall>g. parse_expression ((pre1 @ pre2) @ u # g) = Inr (a, u # g)"
    proof
      fix g
      from p1(2) p2(1) obtain w where w: "pre2 @ u # g = v # w"
        by (cases pre2) auto
      from p1(3) have "parse_term (pre1 @ v # w) = Inr (nd, v # w)"
        by blast
      with w have "parse_term (pre1 @ (pre2 @ u # g)) = Inr (nd, pre2 @ u # g)"
        by simp
      with p2(3) show "parse_expression ((pre1 @ pre2) @ u # g) = Inr (a, u # g)"
        by (simp add: parse_expression.simps)
    qed
    moreover have "tokens = (pre1 @ pre2) @ u # r'"
      using p1(1,2) p2(1) by simp
    ultimately show
      "\<exists>pre u r'. tokens = pre @ u # r' \<and> r = u # r' \<and>
         (\<forall>g. parse_expression (pre @ u # g) = Inr (a, u # g))"
      using p2(2) by blast
  qed
qed

lemma parse_expression_local:
  "parse_expression ts = Inr (a, r) \<Longrightarrow>
   \<exists>pre t r'. ts = pre @ t # r' \<and> r = t # r' \<and>
     (\<forall>g. parse_expression (pre @ t # g) = Inr (a, t # g))"
  using parse_local(5) by blast

lemma parse_statement_local:
  assumes "parse_statement tokens = Inr (ast, rest)"
  shows "\<exists>pre t r'. tokens = pre @ t # r' \<and> rest = t # r' \<and>
           (\<forall>g. parse_statement (pre @ t # g) = Inr (ast, t # g))"
proof (cases tokens)
  case Nil
  with assms show ?thesis by (simp add: parse_statement_def)
next
  case (Cons t0 rest0)
  show ?thesis
  proof (cases "tag t0 = Some ''print''")
    case True
    with assms Cons obtain v where
      e: "parse_expression rest0 = Inr (v, rest)" and a: "ast = Print v"
      by (auto simp: parse_statement_def split: sum.splits)
    from parse_expression_local [OF e] obtain pre t r' where
      p: "rest0 = pre @ t # r'" "rest = t # r'"
         "\<forall>g. parse_expression (pre @ t # g) = Inr (v, t # g)"
      by blast
    have "\<forall>g. parse_statement ((t0 # pre) @ t # g) = Inr (ast, t # g)"
      using True p(3) a by (simp add: parse_statement_def)
    moreover have "tokens = (t0 # pre) @ t # r'"
      using Cons p(1) by simp
    ultimately show ?thesis using p(2) by blast
  next
    case False
    with assms Cons have e: "parse_expression tokens = Inr (ast, rest)"
      by (simp add: parse_statement_def)
    from parse_expression_local [OF e] obtain pre t r' where
      p: "tokens = pre @ t # r'" "rest = t # r'"
         "\<forall>g. parse_expression (pre @ t # g) = Inr (ast, t # g)"
      by blast
    have "\<forall>g. parse_statement (pre @ t # g) = Inr (ast, t # g)"
    proof
      fix g
      from p(1) Cons obtain w where w: "pre @ t # g = t0 # w"
        by (cases pre) auto
      from p(3) have "parse_expression (pre @ t # g) = Inr (ast, t # g)"
        by blast
      with w False show "parse_statement (pre @ t # g) = Inr (ast, t # g)"
        by (simp add: parse_statement_def)
    qed
    with p(1,2) show ?thesis by blast
  qed
qed

text \<open>
  Token lists that end with the end marker, as \<open>tokenize\<close> builds them. On such a list
  the parser never runs off the end: a successful call leaves a list that still ends with
  the marker, and a failed call fails in \<open>parse_factor\<close>, either by its exception, for
  a token of the list, or by its \<^verbatim>\<open>assert\<close>.
\<close>

lemma parse_factor_leaves:
  assumes "parse_factor ts = Inr (a, r)" and "ts \<noteq> []" and "tag (last ts) = None"
  shows "r \<noteq> [] \<and> tag (last r) = None \<and> set r \<subseteq> set ts"
proof (cases ts)
  case Nil
  with assms show ?thesis by simp
next
  case (Cons t rest)
  show ?thesis
  proof (cases "tag t = Some ''number''")
    case True
    with assms Cons have r: "r = rest" by simp
    from True assms Cons have "rest \<noteq> []" by auto
    with assms Cons r show ?thesis by auto
  next
    case False
    with assms Cons have paren: "tag t = Some ''(''"
      by (auto split: if_splits)
    with assms Cons False obtain t' where
      e: "parse_expression rest = Inr (a, t' # r)" and close: "tag t' = Some '')''"
      by (auto split: sum.splits prod.splits list.splits if_splits)
    from parse_expression_local [OF e] obtain pre where p: "rest = pre @ t' # r"
      by auto
    have "r \<noteq> []"
    proof
      assume "r = []"
      with p Cons have "last ts = t'" by simp
      with assms close show False by simp
    qed
    with p Cons assms show ?thesis by auto
  qed
qed

lemma parse_lookahead_leaves:
  assumes "ts = pre @ t # r'" and "r = t # r'" and "tag (last ts) = None"
  shows "r \<noteq> [] \<and> tag (last r) = None \<and> set r \<subseteq> set ts"
  using assms by auto

lemma parse_term_leaves:
  assumes "parse_term ts = Inr (a, r)" and "tag (last ts) = None"
  shows "r \<noteq> [] \<and> tag (last r) = None \<and> set r \<subseteq> set ts"
proof -
  from parse_local(3) assms(1) obtain pre t r' where p: "ts = pre @ t # r'" "r = t # r'"
    by blast
  show ?thesis by (rule parse_lookahead_leaves [OF p assms(2)])
qed

lemma parse_expression_leaves:
  assumes "parse_expression ts = Inr (a, r)" and "tag (last ts) = None"
  shows "r \<noteq> [] \<and> tag (last r) = None \<and> set r \<subseteq> set ts"
proof -
  from parse_local(5) assms(1) obtain pre t r' where p: "ts = pre @ t # r'" "r = t # r'"
    by blast
  show ?thesis by (rule parse_lookahead_leaves [OF p assms(2)])
qed

lemma tail_ends_with_marker:
  assumes "tag (last (t # rest)) = None" and "tag t \<noteq> None"
  shows "rest \<noteq> [] \<and> tag (last rest) = None"
  using assms by (cases rest) auto

lemma parse_errors:
  "ts1 \<noteq> [] \<and> tag (last ts1) = None \<longrightarrow>
     (\<forall>e. parse_factor ts1 = Inl e \<longrightarrow>
        e = AssertionError \<or> (\<exists>t \<in> set ts1. e = UnexpectedToken (tag t) (position t)))"
  "ts2 \<noteq> [] \<and> tag (last ts2) = None \<longrightarrow>
     (\<forall>e. parse_term_loop nd2 ts2 = Inl e \<longrightarrow>
        e = AssertionError \<or> (\<exists>t \<in> set ts2. e = UnexpectedToken (tag t) (position t)))"
  "ts3 \<noteq> [] \<and> tag (last ts3) = None \<longrightarrow>
     (\<forall>e. parse_term ts3 = Inl e \<longrightarrow>
        e = AssertionError \<or> (\<exists>t \<in> set ts3. e = UnexpectedToken (tag t) (position t)))"
  "ts4 \<noteq> [] \<and> tag (last ts4) = None \<longrightarrow>
     (\<forall>e. parse_expression_loop nd4 ts4 = Inl e \<longrightarrow>
        e = AssertionError \<or> (\<exists>t \<in> set ts4. e = UnexpectedToken (tag t) (position t)))"
  "ts5 \<noteq> [] \<and> tag (last ts5) = None \<longrightarrow>
     (\<forall>e. parse_expression ts5 = Inl e \<longrightarrow>
        e = AssertionError \<or> (\<exists>t \<in> set ts5. e = UnexpectedToken (tag t) (position t)))"
proof (induct ts1 and nd2 ts2 and ts3 and nd4 ts4 and ts5
    rule: parse_factor_parse_term_loop_parse_term_parse_expression_loop_parse_expression.induct)
  case 1
  show ?case by simp
next
  case (2 token rest)
  show ?case
  proof (intro impI allI)
    fix e
    assume inv: "token # rest \<noteq> [] \<and> tag (last (token # rest)) = None"
      and res: "parse_factor (token # rest) = Inl e"
    show "e = AssertionError \<or>
          (\<exists>t \<in> set (token # rest). e = UnexpectedToken (tag t) (position t))"
    proof (cases "tag token = Some ''(''")
      case False
      with res have "e = UnexpectedToken (tag token) (position token)"
        by (auto split: if_splits)
      then show ?thesis by auto
    next
      case True
      then have nn: "tag token \<noteq> Some ''number''" by simp
      have r: "rest \<noteq> [] \<and> tag (last rest) = None"
      proof (rule tail_ends_with_marker)
        show "tag (last (token # rest)) = None" by (rule inv [THEN conjunct2])
        show "tag token \<noteq> None" using True by simp
      qed
      show ?thesis
      proof (cases "parse_expression rest")
        case (Inl e')
        with res True have "e = e'" by simp
        with "2.hyps" [OF nn True] r Inl show ?thesis by auto
      next
        case (Inr p)
        obtain node tk where p: "p = (node, tk)" by (cases p)
        with Inr r have "tk \<noteq> []"
          using parse_expression_leaves [of rest node tk] by simp
        with res True Inr p have "e = AssertionError"
          by (auto split: list.splits if_splits)
        then show ?thesis by simp
      qed
    qed
  qed
next
  case (3 node)
  show ?case by simp
next
  case (4 node t rest)
  show ?case
  proof (intro impI allI)
    fix e
    assume inv: "t # rest \<noteq> [] \<and> tag (last (t # rest)) = None"
      and res: "parse_term_loop node (t # rest) = Inl e"
    from res obtain op where op: "tag t = Some op" "op \<in> set [''*'', ''/'']"
      by (auto split: option.splits if_splits)
    have r: "rest \<noteq> [] \<and> tag (last rest) = None"
    proof (rule tail_ends_with_marker)
      show "tag (last (t # rest)) = None" by (rule inv [THEN conjunct2])
      show "tag t \<noteq> None" using op by simp
    qed
    show "e = AssertionError \<or>
          (\<exists>u \<in> set (t # rest). e = UnexpectedToken (tag u) (position u))"
    proof (cases "parse_factor rest")
      case (Inl e')
      with res op have "e = e'" by simp
      with "4.hyps"(1) [OF op] r Inl show ?thesis by auto
    next
      case (Inr p)
      obtain rn tk where p: "p = (rn, tk)" by (cases p)
      with Inr have f: "parse_factor rest = Inr (rn, tk)" by simp
      from parse_factor_leaves [OF f] r have
        tk: "tk \<noteq> [] \<and> tag (last tk) = None" and sub: "set tk \<subseteq> set rest"
        by simp_all
      from res op f have "parse_term_loop (BinaryOp op node rn) tk = Inl e" by simp
      with "4.hyps"(2) [OF op f refl] tk have
        "e = AssertionError \<or> (\<exists>u \<in> set tk. e = UnexpectedToken (tag u) (position u))"
        by blast
      with sub show ?thesis by auto
    qed
  qed
next
  case (5 tokens)
  show ?case
  proof (intro impI allI)
    fix e
    assume inv: "tokens \<noteq> [] \<and> tag (last tokens) = None"
      and res: "parse_term tokens = Inl e"
    show "e = AssertionError \<or>
          (\<exists>u \<in> set tokens. e = UnexpectedToken (tag u) (position u))"
    proof (cases "parse_factor tokens")
      case (Inl e')
      with res have "e = e'" by (simp add: parse_term.simps)
      with "5.hyps"(1) inv Inl show ?thesis by auto
    next
      case (Inr p)
      obtain nd tk where p: "p = (nd, tk)" by (cases p)
      with Inr have f: "parse_factor tokens = Inr (nd, tk)" by simp
      from parse_factor_leaves [OF f] inv have
        tk: "tk \<noteq> [] \<and> tag (last tk) = None" and sub: "set tk \<subseteq> set tokens"
        by simp_all
      from res f have "parse_term_loop nd tk = Inl e" by (simp add: parse_term.simps)
      with "5.hyps"(2) [OF f refl] tk have
        "e = AssertionError \<or> (\<exists>u \<in> set tk. e = UnexpectedToken (tag u) (position u))"
        by blast
      with sub show ?thesis by auto
    qed
  qed
next
  case (6 node)
  show ?case by simp
next
  case (7 node t rest)
  show ?case
  proof (intro impI allI)
    fix e
    assume inv: "t # rest \<noteq> [] \<and> tag (last (t # rest)) = None"
      and res: "parse_expression_loop node (t # rest) = Inl e"
    from res obtain op where op: "tag t = Some op" "op \<in> set [''+'', ''-'']"
      by (auto split: option.splits if_splits)
    have r: "rest \<noteq> [] \<and> tag (last rest) = None"
    proof (rule tail_ends_with_marker)
      show "tag (last (t # rest)) = None" by (rule inv [THEN conjunct2])
      show "tag t \<noteq> None" using op by simp
    qed
    show "e = AssertionError \<or>
          (\<exists>u \<in> set (t # rest). e = UnexpectedToken (tag u) (position u))"
    proof (cases "parse_term rest")
      case (Inl e')
      with res op have "e = e'" by simp
      with "7.hyps"(1) [OF op] r Inl show ?thesis by auto
    next
      case (Inr p)
      obtain rn tk where p: "p = (rn, tk)" by (cases p)
      with Inr have f: "parse_term rest = Inr (rn, tk)" by simp
      from parse_term_leaves [OF f] r have
        tk: "tk \<noteq> [] \<and> tag (last tk) = None" and sub: "set tk \<subseteq> set rest"
        by simp_all
      from res op f have "parse_expression_loop (BinaryOp op node rn) tk = Inl e" by simp
      with "7.hyps"(2) [OF op f refl] tk have
        "e = AssertionError \<or> (\<exists>u \<in> set tk. e = UnexpectedToken (tag u) (position u))"
        by blast
      with sub show ?thesis by auto
    qed
  qed
next
  case (8 tokens)
  show ?case
  proof (intro impI allI)
    fix e
    assume inv: "tokens \<noteq> [] \<and> tag (last tokens) = None"
      and res: "parse_expression tokens = Inl e"
    show "e = AssertionError \<or>
          (\<exists>u \<in> set tokens. e = UnexpectedToken (tag u) (position u))"
    proof (cases "parse_term tokens")
      case (Inl e')
      with res have "e = e'" by (simp add: parse_expression.simps)
      with "8.hyps"(1) inv Inl show ?thesis by auto
    next
      case (Inr p)
      obtain nd tk where p: "p = (nd, tk)" by (cases p)
      with Inr have f: "parse_term tokens = Inr (nd, tk)" by simp
      from parse_term_leaves [OF f] inv have
        tk: "tk \<noteq> [] \<and> tag (last tk) = None" and sub: "set tk \<subseteq> set tokens"
        by simp_all
      from res f have "parse_expression_loop nd tk = Inl e"
        by (simp add: parse_expression.simps)
      with "8.hyps"(2) [OF f refl] tk have
        "e = AssertionError \<or> (\<exists>u \<in> set tk. e = UnexpectedToken (tag u) (position u))"
        by blast
      with sub show ?thesis by auto
    qed
  qed
qed

lemma parse_error_kinds:
  assumes "tokens \<noteq> []" and "tag (last tokens) = None" and "parse tokens = Inl e"
  shows "e = AssertionError \<or> (\<exists>t \<in> set tokens. e = UnexpectedToken (tag t) (position t))"
proof (cases tokens)
  case Nil
  with assms show ?thesis by simp
next
  case (Cons t0 rest0)
  show ?thesis
  proof (cases "tag t0 = Some ''print''")
    case True
    have r: "rest0 \<noteq> [] \<and> tag (last rest0) = None"
    proof (rule tail_ends_with_marker)
      show "tag (last (t0 # rest0)) = None" using assms(2) Cons by simp
      show "tag t0 \<noteq> None" using True by simp
    qed
    from assms(3) Cons True have "parse_expression rest0 = Inl e"
      by (auto simp: parse_def parse_statement_def split: sum.splits)
    with parse_errors(5) r have
      "e = AssertionError \<or> (\<exists>t \<in> set rest0. e = UnexpectedToken (tag t) (position t))"
      by blast
    with Cons show ?thesis by auto
  next
    case False
    with assms(3) Cons have "parse_expression tokens = Inl e"
      by (auto simp: parse_def parse_statement_def split: sum.splits)
    with parse_errors(5) assms(1,2) show ?thesis by blast
  qed
qed

text \<open>
  The whole chain. Take operands that \<open>parse_factor\<close> (for a term) or \<open>parse_term\<close> (for
  an expression) parses whatever follows them, joined by operators of the level, and
  followed by a token that is no operator of the level. The loop consumes all of them and
  returns the left fold: the first operator joins the first two operands, and every later
  operator takes the tree built so far as its left child.
\<close>

lemma parse_term_loop_stops:
  "rest \<noteq> [] \<Longrightarrow> tag (hd rest) \<notin> {Some ''*'', Some ''/''} \<Longrightarrow>
   parse_term_loop node rest = Inr (node, rest)"
  by (cases rest) (auto split: option.splits)

lemma parse_expression_loop_stops:
  "rest \<noteq> [] \<Longrightarrow> tag (hd rest) \<notin> {Some ''+'', Some ''-''} \<Longrightarrow>
   parse_expression_loop node rest = Inr (node, rest)"
  by (cases rest) (auto split: option.splits)

lemma parse_term_loop_fold:
  assumes "\<forall>(t, ts, a) \<in> set items.
             tag t \<in> {Some ''*'', Some ''/''} \<and> (\<forall>r. parse_factor (ts @ r) = Inr (a, r))"
    and "rest \<noteq> []" and "tag (hd rest) \<notin> {Some ''*'', Some ''/''}"
  shows "parse_term_loop node (concat (map (\<lambda>(t, ts, a). t # ts) items) @ rest) =
           Inr (foldl (\<lambda>l (t, ts, a). BinaryOp (the (tag t)) l a) node items, rest)"
  using assms(1)
proof (induction items arbitrary: node)
  case Nil
  from parse_term_loop_stops [OF assms(2,3)] show ?case by simp
next
  case (Cons item items)
  obtain t ts a where item: "item = (t, ts, a)" by (cases item)
  from Cons.prems item have
    t: "tag t \<in> {Some ''*'', Some ''/''}" and
    f: "\<And>r. parse_factor (ts @ r) = Inr (a, r)" and
    rest: "\<forall>(t, ts, a) \<in> set items.
             tag t \<in> {Some ''*'', Some ''/''} \<and> (\<forall>r. parse_factor (ts @ r) = Inr (a, r))"
    by auto
  from t obtain op where op: "tag t = Some op" "op \<in> set [''*'', ''/'']" by auto
  let ?r = "concat (map (\<lambda>(t, ts, a). t # ts) items) @ rest"
  have "parse_term_loop node (t # ts @ ?r) = parse_term_loop (BinaryOp op node a) ?r"
    by (rule parse_term_loop_step [OF op f])
  also have "\<dots> = Inr (foldl (\<lambda>l (t, ts, a). BinaryOp (the (tag t)) l a) (BinaryOp op node a) items, rest)"
    by (rule Cons.IH [OF rest])
  finally show ?case using item op(1) by simp
qed

lemma parse_term_fold:
  assumes "\<forall>r. parse_factor (first @ r) = Inr (a0, r)"
    and "\<forall>(t, ts, a) \<in> set items.
             tag t \<in> {Some ''*'', Some ''/''} \<and> (\<forall>r. parse_factor (ts @ r) = Inr (a, r))"
    and "rest \<noteq> []" and "tag (hd rest) \<notin> {Some ''*'', Some ''/''}"
  shows "parse_term (first @ concat (map (\<lambda>(t, ts, a). t # ts) items) @ rest) =
           Inr (foldl (\<lambda>l (t, ts, a). BinaryOp (the (tag t)) l a) a0 items, rest)"
  using assms(1) parse_term_loop_fold [OF assms(2,3,4)]
  by (simp add: parse_term.simps)

lemma parse_expression_loop_fold:
  assumes "\<forall>(t, ts, a) \<in> set items.
             tag t \<in> {Some ''+'', Some ''-''} \<and>
             (\<forall>r. r \<noteq> [] \<and> tag (hd r) \<notin> {Some ''*'', Some ''/''}
                \<longrightarrow> parse_term (ts @ r) = Inr (a, r))"
    and "rest \<noteq> []" and "tag (hd rest) \<notin> {Some ''+'', Some ''-'', Some ''*'', Some ''/''}"
  shows "parse_expression_loop node (concat (map (\<lambda>(t, ts, a). t # ts) items) @ rest) =
           Inr (foldl (\<lambda>l (t, ts, a). BinaryOp (the (tag t)) l a) node items, rest)"
  using assms(1)
proof (induction items arbitrary: node)
  case Nil
  from assms(3) have "tag (hd rest) \<notin> {Some ''+'', Some ''-''}" by simp
  from parse_expression_loop_stops [OF assms(2) this] show ?case by simp
next
  case (Cons item items)
  obtain t ts a where item: "item = (t, ts, a)" by (cases item)
  from Cons.prems item have
    t: "tag t \<in> {Some ''+'', Some ''-''}" and
    f: "\<And>r. r \<noteq> [] \<Longrightarrow> tag (hd r) \<notin> {Some ''*'', Some ''/''} \<Longrightarrow>
              parse_term (ts @ r) = Inr (a, r)" and
    rest: "\<forall>(t, ts, a) \<in> set items.
             tag t \<in> {Some ''+'', Some ''-''} \<and>
             (\<forall>r. r \<noteq> [] \<and> tag (hd r) \<notin> {Some ''*'', Some ''/''}
                \<longrightarrow> parse_term (ts @ r) = Inr (a, r))"
    by auto
  from t obtain op where op: "tag t = Some op" "op \<in> set [''+'', ''-'']" by auto
  let ?r = "concat (map (\<lambda>(t, ts, a). t # ts) items) @ rest"
  have n: "?r \<noteq> []" using assms(2) by simp
  have h: "tag (hd ?r) \<notin> {Some ''*'', Some ''/''}"
  proof (cases items)
    case Nil
    with assms(3) show ?thesis by simp
  next
    case (Cons item' items')
    obtain t' ts' a' where "item' = (t', ts', a')" by (cases item')
    with Cons rest have "hd ?r = t'" "tag t' \<in> {Some ''+'', Some ''-''}" by auto
    then show ?thesis by auto
  qed
  have "parse_expression_loop node (t # ts @ ?r) = parse_expression_loop (BinaryOp op node a) ?r"
    by (rule parse_expression_loop_step [OF op f [OF n h]])
  also have "\<dots> = Inr (foldl (\<lambda>l (t, ts, a). BinaryOp (the (tag t)) l a) (BinaryOp op node a) items, rest)"
    by (rule Cons.IH [OF rest])
  finally show ?case using item op(1) by simp
qed

lemma parse_expression_fold:
  assumes "\<forall>r. r \<noteq> [] \<and> tag (hd r) \<notin> {Some ''*'', Some ''/''}
             \<longrightarrow> parse_term (first @ r) = Inr (a0, r)"
    and "\<forall>(t, ts, a) \<in> set items.
             tag t \<in> {Some ''+'', Some ''-''} \<and>
             (\<forall>r. r \<noteq> [] \<and> tag (hd r) \<notin> {Some ''*'', Some ''/''}
                \<longrightarrow> parse_term (ts @ r) = Inr (a, r))"
    and "rest \<noteq> []" and "tag (hd rest) \<notin> {Some ''+'', Some ''-'', Some ''*'', Some ''/''}"
  shows "parse_expression (first @ concat (map (\<lambda>(t, ts, a). t # ts) items) @ rest) =
           Inr (foldl (\<lambda>l (t, ts, a). BinaryOp (the (tag t)) l a) a0 items, rest)"
proof -
  let ?r = "concat (map (\<lambda>(t, ts, a). t # ts) items) @ rest"
  have n: "?r \<noteq> []" using assms(3) by simp
  have h: "tag (hd ?r) \<notin> {Some ''*'', Some ''/''}"
  proof (cases items)
    case Nil
    with assms(4) show ?thesis by simp
  next
    case (Cons item' items')
    obtain t' ts' a' where "item' = (t', ts', a')" by (cases item')
    with Cons assms(2) have "hd ?r = t'" "tag t' \<in> {Some ''+'', Some ''-''}" by auto
    then show ?thesis by auto
  qed
  from assms(1) n h have "parse_term (first @ ?r) = Inr (a0, ?r)" by blast
  with parse_expression_loop_fold [OF assms(2,3,4)] show ?thesis
    by (simp add: parse_expression.simps)
qed

text \<open>A number token is such an operand, for both levels.\<close>

lemma parse_factor_number:
  "tag n = Some ''number'' \<Longrightarrow> parse_factor ([n] @ r) = Inr (Number (val n), r)"
  by simp

lemma parse_term_number:
  "tag n = Some ''number'' \<Longrightarrow> r \<noteq> [] \<Longrightarrow> tag (hd r) \<notin> {Some ''*'', Some ''/''} \<Longrightarrow>
   parse_term ([n] @ r) = Inr (Number (val n), r)"
  by (simp add: parse_term.simps parse_term_loop_stops)

section \<open>Facts about the tokenizer\<close>

text \<open>The rule that \<open>try_patterns\<close> answers is a rule of the table that matches.\<close>

lemma try_patterns_member:
  "try_patterns ps s = (Some n, t) \<Longrightarrow> \<exists>p. (p, t) \<in> set ps \<and> p s = Some n"
  by (induction ps s rule: try_patterns.induct) (auto split: option.splits)

lemma try_patterns_some:
  "\<exists>(p, t) \<in> set ps. p s \<noteq> None \<Longrightarrow> \<exists>n t. try_patterns ps s = (Some n, t)"
  by (induction ps s rule: try_patterns.induct) (auto split: option.splits)

text \<open>
  At a position inside the input some rule matches: the last rule matches every character
  but the line feed, and the line feed is whitespace. So the \<^verbatim>\<open>assert match\<close> holds.
\<close>

lemma is_space_line_feed: "\<not> is_dot_char c \<Longrightarrow> is_space c"
  by (simp add: is_dot_char_def is_space_def)

lemma last_rules_match:
  assumes "s \<noteq> []"
  shows "match_whitespace s \<noteq> None \<or> match_any s \<noteq> None"
proof (cases s)
  case Nil
  with assms show ?thesis by simp
next
  case (Cons c r)
  show ?thesis
  proof (cases "is_dot_char c")
    case True
    with Cons show ?thesis by (simp add: match_any_def)
  next
    case False
    then have "is_space c" by (rule is_space_line_feed)
    with Cons have "0 < span is_space s" by (simp add: span_def)
    then show ?thesis by (simp add: match_whitespace_def Let_def)
  qed
qed

lemma try_patterns_total:
  assumes "s \<noteq> []"
  shows "\<exists>n t. try_patterns patterns s = (Some n, t)"
proof (rule try_patterns_some)
  from last_rules_match [OF assms]
  show "\<exists>(p, t) \<in> set patterns. p s \<noteq> None"
    by (auto simp: patterns_def)
qed

lemma try_patterns_number:
  assumes "try_patterns patterns s = (Some n, ''number'')"
  shows "match_number s = Some n"
proof -
  from try_patterns_member [OF assms] obtain p where
    "(p, ''number'') \<in> set patterns" and "p s = Some n"
    by blast
  then show ?thesis by (auto simp: patterns_def)
qed

text \<open>What the number pattern matches: digits, or digits around one decimal point.\<close>

lemma span_takeWhile: "take (span p s) s = takeWhile p s"
  by (simp add: span_def) (metis takeWhile_eq_take)

lemma span_all: "list_all p (take (span p s) s)"
  by (simp add: span_takeWhile list_all_iff) (meson set_takeWhileD)

lemma match_number_shape:
  assumes "match_number s = Some n"
  shows "(\<exists>d. d \<noteq> [] \<and> list_all is_digit d \<and> take n s = d) \<or>
         (\<exists>d1 d2. list_all is_digit d1 \<and> list_all is_digit d2 \<and> (d1 \<noteq> [] \<or> d2 \<noteq> []) \<and>
            take n s = d1 @ ''.'' @ d2)"
proof -
  let ?k = "span is_digit s"
  let ?after = "drop ?k s"
  let ?m = "span is_digit (drop 1 ?after)"
  let ?d1 = "take ?k s"
  let ?d2 = "take ?m (drop 1 ?after)"
  have d1: "list_all is_digit ?d1" by (rule span_all)
  have d2: "list_all is_digit ?d2" by (rule span_all)
  have l1: "length ?d1 = ?k" using span_le [of is_digit s] by simp
  have l2: "length ?d2 = ?m" using span_le [of is_digit "drop 1 ?after"] by simp
  have dot: "take (?k + 1 + ?m) s = ?d1 @ ''.'' @ ?d2" if "take 1 ?after = ''.''"
  proof -
    have "take (?k + (1 + ?m)) s = take ?k s @ take (1 + ?m) ?after"
      by (rule take_add)
    also have "take (1 + ?m) ?after = take 1 ?after @ take ?m (drop 1 ?after)"
      by (rule take_add)
    finally show ?thesis using that by (simp add: add.assoc)
  qed
  show ?thesis
  proof (cases "take 1 ?after = ''.''")
    case True
    show ?thesis
    proof (cases "0 < ?m \<or> 0 < ?k")
      case True
      with \<open>take 1 ?after = ''.''\<close> assms have n: "n = ?k + 1 + ?m"
        by (auto simp: match_number_def Let_def split: if_splits)
      from True l1 l2 have "?d1 \<noteq> [] \<or> ?d2 \<noteq> []" by auto
      with d1 d2 dot [OF \<open>take 1 ?after = ''.''\<close>] n show ?thesis by blast
    next
      case False
      with assms show ?thesis
        by (auto simp: match_number_def Let_def split: if_splits)
    qed
  next
    case False
    with assms have n: "n = ?k" "0 < ?k"
      by (auto simp: match_number_def Let_def split: if_splits)
    with l1 have "?d1 \<noteq> []" by auto
    with d1 n show ?thesis by blast
  qed
qed

text \<open>
  On such texts \<^verbatim>\<open>float\<close> does not raise, and \<^verbatim>\<open>int\<close> raises only when the digits are
  more than 4300.
\<close>

lemma is_digit_not_dot: "is_digit c \<Longrightarrow> c \<noteq> CHR ''.''"
  by (auto simp: is_digit_def)

lemma digits_no_dot: "list_all is_digit d \<Longrightarrow> CHR ''.'' \<notin> set d"
  by (auto simp: list_all_iff dest: is_digit_not_dot)

lemma py_int_digits:
  "d \<noteq> [] \<Longrightarrow> list_all is_digit d \<Longrightarrow> length d \<le> 4300 \<Longrightarrow>
   py_int d = Inr (int (digits_value d))"
  by (simp add: py_int_def)

lemma py_int_long: "4300 < length d \<Longrightarrow> py_int d = Inl ValueError"
  by (simp add: py_int_def)

lemma py_float_digits:
  assumes "list_all is_digit d1" and "list_all is_digit d2" and "d1 \<noteq> [] \<or> d2 \<noteq> []"
  shows "py_float (d1 @ ''.'' @ d2) = Inr (double_of (digits_value (d1 @ d2)) (10 ^ length d2))"
proof -
  from assms(1) have "takeWhile (\<lambda>c. c \<noteq> CHR ''.'') (d1 @ ''.'' @ d2) = d1"
    by (induction d1) (auto dest: is_digit_not_dot)
  with assms show ?thesis
    by (simp add: py_float_def Let_def)
qed

lemma decode_result:
  assumes "try_patterns patterns s = (Some n, t)"
  shows "(\<exists>v. decode t (take n s) = Inr v \<and> v \<noteq> VNone) \<or>
         (t = ''number'' \<and> list_all is_digit (take n s) \<and> 4300 < n \<and>
          decode t (take n s) = Inl ValueError)"
proof (cases "t = ''number''")
  case False
  then show ?thesis by (simp add: decode_def)
next
  case True
  from try_patterns_bounds [OF assms] have len: "length (take n s) = n" by simp
  from True assms have "match_number s = Some n" by (simp add: try_patterns_number)
  from match_number_shape [OF this] consider
    (digits) d where "d \<noteq> []" "list_all is_digit d" "take n s = d"
  | (point) d1 d2 where "list_all is_digit d1" "list_all is_digit d2" "d1 \<noteq> [] \<or> d2 \<noteq> []"
      "take n s = d1 @ ''.'' @ d2"
    by blast
  then show ?thesis
  proof cases
    case digits
    then have nodot: "CHR ''.'' \<notin> set (take n s)" by (simp add: digits_no_dot)
    show ?thesis
    proof (cases "n \<le> 4300")
      case True
      with digits len have "py_int (take n s) = Inr (int (digits_value (take n s)))"
        by (simp add: py_int_digits)
      with nodot \<open>t = ''number''\<close> show ?thesis by (simp add: decode_def)
    next
      case False
      with len have "py_int (take n s) = Inl ValueError" by (simp add: py_int_long)
      with nodot \<open>t = ''number''\<close> digits False show ?thesis by (simp add: decode_def)
    qed
  next
    case point
    then have dot: "CHR ''.'' \<in> set (take n s)" by simp
    from py_float_digits [OF point(1,2,3)] point(4) have
      "py_float (take n s) = Inr (double_of (digits_value (d1 @ d2)) (10 ^ length d2))"
      by simp
    with dot True show ?thesis by (simp add: decode_def)
  qed
qed

text \<open>The turns of the scanning loop.\<close>

lemma tokenize_loop_end:
  "\<not> pos < length cs \<Longrightarrow>
   tokenize_loop cs pos acc = Inr (acc @ [\<lparr>tag = None, position = pos, val = VNone\<rparr>])"
  by (simp add: tokenize_loop.simps)

lemma tokenize_loop_error:
  "pos < length cs \<Longrightarrow> try_patterns patterns (drop pos cs) = (Some n, ''error'') \<Longrightarrow>
   tokenize_loop cs pos acc = Inl SyntaxError"
  by (simp add: tokenize_loop.simps)

lemma tokenize_loop_raise:
  "pos < length cs \<Longrightarrow> try_patterns patterns (drop pos cs) = (Some n, t) \<Longrightarrow> t \<noteq> ''error'' \<Longrightarrow>
   decode t (take n (drop pos cs)) = Inl e \<Longrightarrow>
   tokenize_loop cs pos acc = Inl e"
  by (subst tokenize_loop.simps) simp

lemma tokenize_loop_step:
  "pos < length cs \<Longrightarrow> try_patterns patterns (drop pos cs) = (Some n, t) \<Longrightarrow> t \<noteq> ''error'' \<Longrightarrow>
   decode t (take n (drop pos cs)) = Inr v \<Longrightarrow>
   tokenize_loop cs pos acc =
     tokenize_loop cs (pos + n)
       (if t \<noteq> ''whitespace'' then acc @ [\<lparr>tag = Some t, position = pos, val = v\<rparr>] else acc)"
  by (subst tokenize_loop.simps) simp

lemma tokenize_loop_cases:
  assumes "pos < length cs"
  obtains (error) n where "try_patterns patterns (drop pos cs) = (Some n, ''error'')"
      and "tokenize_loop cs pos acc = Inl SyntaxError"
  | (long) n where "try_patterns patterns (drop pos cs) = (Some n, ''number'')"
      and "list_all is_digit (take n (drop pos cs))" and "4300 < n"
      and "decode ''number'' (take n (drop pos cs)) = Inl ValueError"
      and "tokenize_loop cs pos acc = Inl ValueError"
  | (step) n t v where "try_patterns patterns (drop pos cs) = (Some n, t)"
      and "t \<noteq> ''error''" and "0 < n" and "pos + n \<le> length cs"
      and "decode t (take n (drop pos cs)) = Inr v" and "v \<noteq> VNone"
      and "tokenize_loop cs pos acc =
             tokenize_loop cs (pos + n)
               (if t \<noteq> ''whitespace'' then acc @ [\<lparr>tag = Some t, position = pos, val = v\<rparr>]
                else acc)"
proof -
  from assms have "drop pos cs \<noteq> []" by simp
  from try_patterns_total [OF this] obtain n t where
    tp: "try_patterns patterns (drop pos cs) = (Some n, t)"
    by blast
  show ?thesis
  proof (cases "t = ''error''")
    case True
    with tp assms show ?thesis
      using error tokenize_loop_error by blast
  next
    case False
    from decode_result [OF tp] consider
      (ok) v where "decode t (take n (drop pos cs)) = Inr v" "v \<noteq> VNone"
    | (bad) "t = ''number''" "list_all is_digit (take n (drop pos cs))" "4300 < n"
        "decode t (take n (drop pos cs)) = Inl ValueError"
      by blast
    then show ?thesis
    proof cases
      case ok
      from try_patterns_bounds [OF tp] assms have b: "0 < n" "pos + n \<le> length cs"
        by auto
      from tokenize_loop_step [OF assms tp False ok(1)] tp False ok b show ?thesis
        using step by blast
    next
      case bad
      from tokenize_loop_raise [OF assms tp False bad(4)] tp bad show ?thesis
        using long by blast
    qed
  qed
qed

text \<open>
  What a successful run of the loop appends: tokens with tags of the table and values,
  at positions that grow strictly from the current one and stay inside the input, and
  then the end marker at the length of the input.
\<close>

lemma tokenize_loop_result:
  assumes "pos \<le> length cs" and "tokenize_loop cs pos acc = Inr toks"
  shows "\<exists>new. toks = acc @ new @ [\<lparr>tag = None, position = length cs, val = VNone\<rparr>] \<and>
           (\<forall>t \<in> set new. (\<exists>g \<in> snd ` set patterns. tag t = Some g) \<and> val t \<noteq> VNone \<and>
              pos \<le> position t \<and> position t < length cs) \<and>
           sorted_wrt (<) (map position new)"
  using assms
proof (induction "length cs - pos" arbitrary: pos acc rule: less_induct)
  case less
  show ?case
  proof (cases "pos < length cs")
    case False
    with less.prems have "pos = length cs" by simp
    with less.prems False have
      "toks = acc @ [] @ [\<lparr>tag = None, position = length cs, val = VNone\<rparr>]"
      by (simp add: tokenize_loop_end)
    then show ?thesis by force
  next
    case True
    from True show ?thesis
    proof (cases rule: tokenize_loop_cases [where acc = acc])
      case (error n)
      with less.prems show ?thesis by simp
    next
      case (long n)
      with less.prems show ?thesis by simp
    next
      case (step n t v)
      let ?tok = "\<lparr>tag = Some t, position = pos, val = v\<rparr>"
      let ?acc = "if t \<noteq> ''whitespace'' then acc @ [?tok] else acc"
      from step(3,4) True have m: "length cs - (pos + n) < length cs - pos" by simp
      from step(7) less.prems(2) have r: "tokenize_loop cs (pos + n) ?acc = Inr toks" by simp
      from less.hyps [OF m step(4) r] obtain new where
        n: "toks = ?acc @ new @ [\<lparr>tag = None, position = length cs, val = VNone\<rparr>]"
           "\<forall>u \<in> set new. (\<exists>g \<in> snd ` set patterns. tag u = Some g) \<and> val u \<noteq> VNone \<and>
              pos + n \<le> position u \<and> position u < length cs"
           "sorted_wrt (<) (map position new)"
        by blast
      from try_patterns_member [OF step(1)] have g: "t \<in> snd ` set patterns"
        by force
      show ?thesis
      proof (cases "t = ''whitespace''")
        case True
        with n(1) have "toks = acc @ new @ [\<lparr>tag = None, position = length cs, val = VNone\<rparr>]"
          by simp
        moreover from n(2) have
          "\<forall>u \<in> set new. (\<exists>g \<in> snd ` set patterns. tag u = Some g) \<and> val u \<noteq> VNone \<and>
              pos \<le> position u \<and> position u < length cs"
          by auto
        ultimately show ?thesis using n(3) by blast
      next
        case False
        with n(1) have
          "toks = acc @ (?tok # new) @ [\<lparr>tag = None, position = length cs, val = VNone\<rparr>]"
          by simp
        moreover from n(2) g step(6) \<open>pos < length cs\<close> have
          "\<forall>u \<in> set (?tok # new). (\<exists>g \<in> snd ` set patterns. tag u = Some g) \<and> val u \<noteq> VNone \<and>
              pos \<le> position u \<and> position u < length cs"
          by auto
        moreover from n(2,3) step(3) have "sorted_wrt (<) (map position (?tok # new))"
          by auto
        ultimately show ?thesis by blast
      qed
    qed
  qed
qed

lemma tokenize_result:
  assumes "tokenize s = Inr toks"
  shows "toks \<noteq> [] \<and> last toks = \<lparr>tag = None, position = length s, val = VNone\<rparr> \<and>
         (\<forall>t \<in> set (butlast toks).
            (\<exists>g \<in> snd ` set patterns. tag t = Some g) \<and> val t \<noteq> VNone \<and> position t < length s) \<and>
         sorted_wrt (<) (map position toks)"
proof -
  from assms have "tokenize_loop s 0 [] = Inr toks" by (simp add: tokenize_def)
  from tokenize_loop_result [OF _ this] obtain new where
    n: "toks = new @ [\<lparr>tag = None, position = length s, val = VNone\<rparr>]"
       "\<forall>t \<in> set new. (\<exists>g \<in> snd ` set patterns. tag t = Some g) \<and> val t \<noteq> VNone \<and>
          0 \<le> position t \<and> position t < length s"
       "sorted_wrt (<) (map position new)"
    by auto
  from n(2,3) have "sorted_wrt (<) (map position new @ [length s])"
    by (auto simp: sorted_wrt_append)
  with n(1,2) show ?thesis by simp
qed

text \<open>
  The loop reaches exactly the scan positions. It can fail in two ways only: the rule
  that matches first at a scan position is the last rule of the table, or it is the
  number rule and the match is more than 4300 digits with no decimal point.
\<close>

lemma scan_position_bound: "scan_position cs pos \<Longrightarrow> pos \<le> length cs"
proof (induction rule: scan_position.induct)
  case scan_start
  show ?case by simp
next
  case (scan_next pos n t v q)
  from try_patterns_bounds [OF scan_next.hyps(3)] scan_next.hyps(2,6) show ?case by auto
qed

lemma scan_position_loop: "scan_position cs pos \<Longrightarrow> \<exists>acc. tokenize cs = tokenize_loop cs pos acc"
proof (induction rule: scan_position.induct)
  case scan_start
  show ?case by (auto simp: tokenize_def)
next
  case (scan_next pos n t v q)
  then obtain acc where a: "tokenize cs = tokenize_loop cs pos acc" by blast
  from tokenize_loop_step [OF scan_next.hyps(2,3,4,5), of acc] a scan_next.hyps(6)
  show ?case by metis
qed

lemma tokenize_loop_failure:
  assumes "scan_position cs pos" and "tokenize_loop cs pos acc = Inl e"
  shows "\<exists>q n. scan_position cs q \<and> q < length cs \<and>
           (e = SyntaxError \<and> try_patterns patterns (drop q cs) = (Some n, ''error'') \<or>
            e = ValueError \<and> try_patterns patterns (drop q cs) = (Some n, ''number'') \<and>
              list_all is_digit (take n (drop q cs)) \<and> 4300 < n)"
  using assms
proof (induction "length cs - pos" arbitrary: pos acc rule: less_induct)
  case less
  show ?case
  proof (cases "pos < length cs")
    case False
    with less.prems show ?thesis by (simp add: tokenize_loop_end)
  next
    case True
    from True show ?thesis
    proof (cases rule: tokenize_loop_cases [where acc = acc])
      case (error n)
      with less.prems True show ?thesis by auto
    next
      case (long n)
      with less.prems True show ?thesis by auto
    next
      case (step n t v)
      let ?acc = "if t \<noteq> ''whitespace''
                  then acc @ [\<lparr>tag = Some t, position = pos, val = v\<rparr>] else acc"
      from step(3,4) True have m: "length cs - (pos + n) < length cs - pos" by simp
      from less.prems(1) True step(1,2,5) have s: "scan_position cs (pos + n)"
        by (rule scan_next) simp
      from step(7) less.prems(2) have r: "tokenize_loop cs (pos + n) ?acc = Inl e" by simp
      from less.hyps [OF m s r] show ?thesis .
    qed
  qed
qed

text \<open>
  Two scan positions of one input are never inside one match: a position that the loop
  reaches is reached in one way only, so a failure at a scan position is the failure of
  the whole run.
\<close>

lemma scan_position_failure:
  assumes "scan_position cs pos" and "pos < length cs"
    and "try_patterns patterns (drop pos cs) = (Some n, t)"
    and "t = ''error'' \<and> e = SyntaxError \<or>
         t \<noteq> ''error'' \<and> decode t (take n (drop pos cs)) = Inl e"
  shows "tokenize cs = Inl e"
proof -
  from scan_position_loop [OF assms(1)] obtain acc where
    a: "tokenize cs = tokenize_loop cs pos acc"
    by blast
  from assms(4) show ?thesis
  proof
    assume "t = ''error'' \<and> e = SyntaxError"
    with tokenize_loop_error [OF assms(2), of n acc] assms(3) a show ?thesis by simp
  next
    assume "t \<noteq> ''error'' \<and> decode t (take n (drop pos cs)) = Inl e"
    with tokenize_loop_raise [OF assms(2,3), of e acc] a show ?thesis by simp
  qed
qed

lemma only_error_rule:
  "try_patterns patterns s = (Some n, ''error'') \<longleftrightarrow>
     list_all (\<lambda>(p, t). p s = None) (butlast patterns) \<and> match_any s = Some n"
  by (auto simp: patterns_def split: option.splits)

lemma match_any_length: "match_any s = Some n \<Longrightarrow> n = 1 \<and> s \<noteq> []"
  by (auto simp: match_any_def split: list.splits if_splits)

text \<open>What the patterns match at the front of a text of a known shape.\<close>

lemma takeWhile_prefix:
  "list_all p d \<Longrightarrow> r = [] \<or> \<not> p (hd r) \<Longrightarrow> takeWhile p (d @ r) = d"
  by (induction d) (auto simp: takeWhile_eq_Nil_iff)

lemma span_prefix:
  "list_all p d \<Longrightarrow> r = [] \<or> \<not> p (hd r) \<Longrightarrow> span p (d @ r) = length d"
  by (simp add: span_def takeWhile_prefix)

lemma span_whole: "list_all p d \<Longrightarrow> span p d = length d"
  using span_prefix [of p d "[]"] by simp



lemma match_number_head:
  assumes "match_number s = Some n"
  shows "s \<noteq> [] \<and> (is_digit (hd s) \<or> hd s = CHR ''.'')"
proof (cases s)
  case Nil
  with assms show ?thesis by (simp add: match_number_def span_def)
next
  case (Cons c r)
  show ?thesis
  proof (cases "is_digit c \<or> c = CHR ''.''")
    case True
    with Cons show ?thesis by simp
  next
    case False
    with Cons have "span is_digit s = 0" "take 1 s \<noteq> ''.''" by (auto simp: span_def)
    with assms show ?thesis by (simp add: match_number_def Let_def)
  qed
qed


lemma try_patterns_print:
  "take 5 s = ''print'' \<Longrightarrow> try_patterns patterns s = (Some 5, ''print'')"
  by (simp add: patterns_def match_print_def)

lemma match_identifier_word:
  assumes "w \<noteq> []" and "is_ident_start (hd w)" and "list_all is_ident_char w"
    and "r = [] \<or> \<not> is_ident_char (hd r)"
  shows "match_identifier (w @ r) = Some (length w)"
proof -
  from assms(1) obtain c u where w: "w = c # u" by (cases w) auto
  with assms(3) have "list_all is_ident_char u" by simp
  with assms(4) have "span is_ident_char (u @ r) = length u"
    by (auto simp: span_prefix span_whole)
  with w assms(2) show ?thesis by (simp add: match_identifier_def)
qed

lemma try_patterns_identifier:
  assumes "match_identifier s = Some n" and "take 5 s \<noteq> ''print''"
  shows "try_patterns patterns s = (Some n, ''identifier'')"
proof -
  from assms(1) obtain c r where s: "s = c # r" "is_ident_start c"
    by (cases s) (auto simp: match_identifier_def split: if_splits)
  from s(2) have "\<not> is_digit c" "c \<noteq> CHR ''.''"
    by (auto simp: is_ident_start_def is_letter_def is_digit_def)
  with s(1) have "\<not> (s \<noteq> [] \<and> (is_digit (hd s) \<or> hd s = CHR ''.''))" by simp
  with match_number_head [of s] have "match_number s = None" by (cases "match_number s") auto
  with assms show ?thesis by (simp add: patterns_def match_print_def)
qed



lemma tokenize_print_first:
  assumes "take 5 s = ''print''"
  shows "tokenize s =
           tokenize_loop s 5 [\<lparr>tag = Some ''print'', position = 0, val = VStr ''print''\<rparr>]"
proof -
  from assms have l: "0 < length s" by auto
  from assms have tp: "try_patterns patterns (drop 0 s) = (Some 5, ''print'')"
    by (simp add: try_patterns_print)
  from assms have dec: "decode ''print'' (take 5 (drop 0 s)) = Inr (VStr ''print'')"
    by (simp add: decode_def)
  from tokenize_loop_step [OF l tp _ dec, of "[]"] show ?thesis
    by (simp add: tokenize_def)
qed

lemma tokenize_print_word:
  assumes "w \<noteq> []" and "is_ident_start (hd w)" and "list_all is_ident_char w"
    and "take 5 w \<noteq> ''print''"
  shows "tokenize (''print'' @ w) =
           Inr [\<lparr>tag = Some ''print'', position = 0, val = VStr ''print''\<rparr>,
                \<lparr>tag = Some ''identifier'', position = 5, val = VStr w\<rparr>,
                \<lparr>tag = None, position = 5 + length w, val = VNone\<rparr>]"
proof -
  let ?s = "''print'' @ w"
  let ?p = "\<lparr>tag = Some ''print'', position = 0, val = VStr ''print''\<rparr>"
  have d: "drop 5 ?s = w" by simp
  have "tokenize ?s = tokenize_loop ?s 5 [?p]"
    by (rule tokenize_print_first) simp
  moreover
  from assms(1) have l: "5 < length ?s" by simp
  from match_identifier_word [OF assms(1,2,3), of "[]"] have "match_identifier w = Some (length w)"
    by simp
  from try_patterns_identifier [OF this assms(4)] d
  have tp: "try_patterns patterns (drop 5 ?s) = (Some (length w), ''identifier'')"
    by simp
  have dec: "decode ''identifier'' (take (length w) (drop 5 ?s)) = Inr (VStr w)"
    by (simp add: decode_def)
  from tokenize_loop_step [OF l tp _ dec, of "[?p]"]
  have "tokenize_loop ?s 5 [?p] =
          tokenize_loop ?s (5 + length w)
            [?p, \<lparr>tag = Some ''identifier'', position = 5, val = VStr w\<rparr>]"
    by simp
  moreover have "tokenize_loop ?s (5 + length w)
            [?p, \<lparr>tag = Some ''identifier'', position = 5, val = VStr w\<rparr>] =
          Inr [?p, \<lparr>tag = Some ''identifier'', position = 5, val = VStr w\<rparr>,
               \<lparr>tag = None, position = 5 + length w, val = VNone\<rparr>]"
    by (simp add: tokenize_loop_end)
  ultimately show ?thesis by simp
qed


text \<open>
  What a rule other than the last one consumes: letters, digits, underscores, decimal
  points, the six operator and parenthesis characters, and whitespace. So a successful
  run has seen no other character.
\<close>

lemma match_print_text: "match_print s = Some n \<Longrightarrow> take n s = ''print''"
  by (simp add: match_print_def split: if_splits)

lemma match_identifier_text: "match_identifier s = Some n \<Longrightarrow> list_all is_ident_char (take n s)"
proof (cases s)
  case Nil
  then show ?thesis by simp
next
  case (Cons c r)
  assume "match_identifier s = Some n"
  with Cons have c: "is_ident_start c" and n: "n = 1 + span is_ident_char r"
    by (auto simp: match_identifier_def split: if_splits)
  from c have "is_ident_char c" by (auto simp: is_ident_start_def is_ident_char_def)
  with Cons n span_all [of is_ident_char r] show ?thesis by simp
qed

lemma match_char_text: "match_char x s = Some n \<Longrightarrow> take n s = [x]"
  by (cases s) (auto simp: match_char_def split: if_splits)

lemma match_whitespace_text: "match_whitespace s = Some n \<Longrightarrow> list_all is_space (take n s)"
  using span_all [of is_space s]
  by (auto simp: match_whitespace_def Let_def split: if_splits)

lemma match_number_text:
  assumes "match_number s = Some n"
  shows "\<forall>c \<in> set (take n s). is_digit c \<or> c = CHR ''.''"
  using match_number_shape [OF assms] by (auto simp: list_all_iff)

lemma try_patterns_text:
  assumes "try_patterns patterns s = (Some n, t)" and "t \<noteq> ''error''"
  shows "\<forall>c \<in> set (take n s). is_ident_char c \<or> c \<in> set ''+-*/().'' \<or> is_space c"
proof -
  from try_patterns_member [OF assms(1)] obtain p where
    p: "(p, t) \<in> set patterns" "p s = Some n"
    by blast
  from p(1) assms(2) consider
    (kw) "p = match_print"
  | (num) "p = match_number"
  | (ident) "p = match_identifier"
  | (op) x where "p = match_char x" "x \<in> set ''+-*/()''"
  | (ws) "p = match_whitespace"
    by (auto simp: patterns_def)
  then show ?thesis
  proof cases
    case kw
    with p(2) have "take n s = ''print''" by (simp add: match_print_text)
    then show ?thesis by (simp add: is_ident_char_def is_letter_def)
  next
    case num
    with p(2) have "\<forall>c \<in> set (take n s). is_digit c \<or> c = CHR ''.''"
      by (simp add: match_number_text)
    then show ?thesis by (auto simp: is_ident_char_def)
  next
    case ident
    with p(2) have "list_all is_ident_char (take n s)" by (simp add: match_identifier_text)
    then show ?thesis by (auto simp: list_all_iff)
  next
    case op
    with p(2) have "take n s = [x]" by (simp add: match_char_text)
    with op(2) show ?thesis by auto
  next
    case ws
    with p(2) have "list_all is_space (take n s)" by (simp add: match_whitespace_text)
    then show ?thesis by (auto simp: list_all_iff)
  qed
qed

lemma tokenize_loop_text:
  assumes "pos \<le> length cs" and "tokenize_loop cs pos acc = Inr toks"
  shows "\<forall>c \<in> set (drop pos cs). is_ident_char c \<or> c \<in> set ''+-*/().'' \<or> is_space c"
  using assms
proof (induction "length cs - pos" arbitrary: pos acc rule: less_induct)
  case less
  show ?case
  proof (cases "pos < length cs")
    case False
    then show ?thesis by simp
  next
    case True
    from True show ?thesis
    proof (cases rule: tokenize_loop_cases [where acc = acc])
      case (error n)
      with less.prems show ?thesis by simp
    next
      case (long n)
      with less.prems show ?thesis by simp
    next
      case (step n t v)
      let ?acc = "if t \<noteq> ''whitespace''
                  then acc @ [\<lparr>tag = Some t, position = pos, val = v\<rparr>] else acc"
      from step(3,4) True have m: "length cs - (pos + n) < length cs - pos" by simp
      from step(7) less.prems(2) have r: "tokenize_loop cs (pos + n) ?acc = Inr toks" by simp
      from less.hyps [OF m step(4) r] have
        tl: "\<forall>c \<in> set (drop (pos + n) cs).
               is_ident_char c \<or> c \<in> set ''+-*/().'' \<or> is_space c" .
      from try_patterns_text [OF step(1,2)] have
        hd: "\<forall>c \<in> set (take n (drop pos cs)).
               is_ident_char c \<or> c \<in> set ''+-*/().'' \<or> is_space c" .
      have "take n (drop pos cs) @ drop n (drop pos cs) = drop pos cs"
        by (rule append_take_drop_id)
      moreover have "drop n (drop pos cs) = drop (pos + n) cs"
        by (simp add: add.commute)
      ultimately have "drop pos cs = take n (drop pos cs) @ drop (pos + n) cs"
        by simp
      then have "set (drop pos cs) = set (take n (drop pos cs)) \<union> set (drop (pos + n) cs)"
        by (metis set_append)
      with hd tl show ?thesis by blast
    qed
  qed
qed

lemma tokenize_text:
  assumes "tokenize s = Inr toks"
  shows "\<forall>c \<in> set s. is_ident_char c \<or> c \<in> set ''+-*/().'' \<or> is_space c"
proof -
  from assms have "tokenize_loop s 0 [] = Inr toks" by (simp add: tokenize_def)
  from tokenize_loop_text [OF _ this] show ?thesis by simp
qed

section \<open>Claims about concrete inputs\<close>





text \<open>
  C10. The empty input is never accepted: \<open>tokenize\<close> of the empty string gives the end
  marker alone, at position 0, and \<open>parse\<close> of that list fails, \<open>parse_factor\<close> refusing
  the end marker's tag as the start of a factor; so no tree comes back.
\<close>

theorem C10_empty_input:
  "tokenize '''' = Inr [\<lparr>tag = None, position = 0, val = VNone\<rparr>]
   \<and> parse_factor [\<lparr>tag = None, position = 0, val = VNone\<rparr>] = Inl (UnexpectedToken None 0)
   \<and> parse [\<lparr>tag = None, position = 0, val = VNone\<rparr>] = Inl (UnexpectedToken None 0)
   \<and> (case tokenize '''' of Inl e \<Rightarrow> Inl e | Inr ts \<Rightarrow> parse ts) = Inl (UnexpectedToken None 0)"
  by (simp add: tokenize_def tokenize_loop.simps parse_def parse_statement_def
      parse_expression.simps parse_term.simps)

text \<open>
  C2. Operators of one precedence level fold to the left: tokenizing and then parsing
  \<^verbatim>\<open>2*4/6\<close> gives \<^verbatim>\<open>(2 * 4) / 6\<close>, and \<^verbatim>\<open>8-6-3\<close> gives \<^verbatim>\<open>(8 - 6) - 3\<close>. In general:

  \<^item> a turn of the loop of \<open>parse_term\<close> (and of \<open>parse_expression\<close>) makes the tree built
    so far the left child of the new node;

  \<^item> \<open>parse_term\<close>, given a factor, then any number of \<^verbatim>\<open>*\<close> or \<^verbatim>\<open>/\<close> tokens each with a
    factor after it, then a token that is neither \<^verbatim>\<open>*\<close> nor \<^verbatim>\<open>/\<close>, consumes the whole chain
    and returns the left fold of the factors' trees: each operator takes the tree of all
    that stands before it as its left child and the tree of the factor after it as its
    right child;

  \<^item> \<open>parse_expression\<close> does the same with terms joined by \<^verbatim>\<open>+\<close> or \<^verbatim>\<open>-\<close>.

  An operand here is a token list that \<open>parse_factor\<close> (or \<open>parse_term\<close>) consumes whole
  and turns into its tree, whatever follows it.
\<close>

theorem C2_left_associative:
  "(case tokenize ''2*4/6'' of Inl e \<Rightarrow> Inl e | Inr ts \<Rightarrow> parse ts) =
     Inr (BinaryOp ''/'' (BinaryOp ''*'' (Number (VInt 2)) (Number (VInt 4))) (Number (VInt 6)))
   \<and> (case tokenize ''8-6-3'' of Inl e \<Rightarrow> Inl e | Inr ts \<Rightarrow> parse ts) =
     Inr (BinaryOp ''-'' (BinaryOp ''-'' (Number (VInt 8)) (Number (VInt 6))) (Number (VInt 3)))
   \<and> (\<forall>node t rest op right_node tokens'.
         tag t = Some op \<and> op \<in> set [''*'', ''/''] \<and> parse_factor rest = Inr (right_node, tokens')
         \<longrightarrow> parse_term_loop node (t # rest) = parse_term_loop (BinaryOp op node right_node) tokens')
   \<and> (\<forall>node t rest op right_node tokens'.
         tag t = Some op \<and> op \<in> set [''+'', ''-''] \<and> parse_term rest = Inr (right_node, tokens')
         \<longrightarrow> parse_expression_loop node (t # rest) =
             parse_expression_loop (BinaryOp op node right_node) tokens')
   \<and> (\<forall>first a0 items rest.
         (\<forall>r. parse_factor (first @ r) = Inr (a0, r)) \<and>
         (\<forall>(t, ts, a) \<in> set items.
            tag t \<in> {Some ''*'', Some ''/''} \<and> (\<forall>r. parse_factor (ts @ r) = Inr (a, r))) \<and>
         rest \<noteq> [] \<and> tag (hd rest) \<notin> {Some ''*'', Some ''/''}
         \<longrightarrow> parse_term (first @ concat (map (\<lambda>(t, ts, a). t # ts) items) @ rest) =
               Inr (foldl (\<lambda>l (t, ts, a). BinaryOp (the (tag t)) l a) a0 items, rest))
   \<and> (\<forall>first a0 items rest.
         (\<forall>r. r \<noteq> [] \<and> tag (hd r) \<notin> {Some ''*'', Some ''/''}
            \<longrightarrow> parse_term (first @ r) = Inr (a0, r)) \<and>
         (\<forall>(t, ts, a) \<in> set items.
            tag t \<in> {Some ''+'', Some ''-''} \<and>
            (\<forall>r. r \<noteq> [] \<and> tag (hd r) \<notin> {Some ''*'', Some ''/''}
               \<longrightarrow> parse_term (ts @ r) = Inr (a, r))) \<and>
         rest \<noteq> [] \<and> tag (hd rest) \<notin> {Some ''+'', Some ''-'', Some ''*'', Some ''/''}
         \<longrightarrow> parse_expression (first @ concat (map (\<lambda>(t, ts, a). t # ts) items) @ rest) =
               Inr (foldl (\<lambda>l (t, ts, a). BinaryOp (the (tag t)) l a) a0 items, rest))"
proof (intro conjI)
  show "(case tokenize ''2*4/6'' of Inl e \<Rightarrow> Inl e | Inr ts \<Rightarrow> parse ts) =
     Inr (BinaryOp ''/'' (BinaryOp ''*'' (Number (VInt 2)) (Number (VInt 4))) (Number (VInt 6)))"
    by code_simp
next
  show "(case tokenize ''8-6-3'' of Inl e \<Rightarrow> Inl e | Inr ts \<Rightarrow> parse ts) =
     Inr (BinaryOp ''-'' (BinaryOp ''-'' (Number (VInt 8)) (Number (VInt 6))) (Number (VInt 3)))"
    by code_simp
next
  show "\<forall>node t rest op right_node tokens'.
         tag t = Some op \<and> op \<in> set [''*'', ''/''] \<and> parse_factor rest = Inr (right_node, tokens')
         \<longrightarrow> parse_term_loop node (t # rest) = parse_term_loop (BinaryOp op node right_node) tokens'"
    using parse_term_loop_step by blast
next
  show "\<forall>node t rest op right_node tokens'.
         tag t = Some op \<and> op \<in> set [''+'', ''-''] \<and> parse_term rest = Inr (right_node, tokens')
         \<longrightarrow> parse_expression_loop node (t # rest) =
             parse_expression_loop (BinaryOp op node right_node) tokens'"
    using parse_expression_loop_step by blast
next
  show "\<forall>first a0 items rest.
         (\<forall>r. parse_factor (first @ r) = Inr (a0, r)) \<and>
         (\<forall>(t, ts, a) \<in> set items.
            tag t \<in> {Some ''*'', Some ''/''} \<and> (\<forall>r. parse_factor (ts @ r) = Inr (a, r))) \<and>
         rest \<noteq> [] \<and> tag (hd rest) \<notin> {Some ''*'', Some ''/''}
         \<longrightarrow> parse_term (first @ concat (map (\<lambda>(t, ts, a). t # ts) items) @ rest) =
               Inr (foldl (\<lambda>l (t, ts, a). BinaryOp (the (tag t)) l a) a0 items, rest)"
  proof (intro allI impI, elim conjE)
    fix first :: "token list" and a0 :: ast and items :: "(token \<times> token list \<times> ast) list"
      and rest :: "token list"
    assume "\<forall>r. parse_factor (first @ r) = Inr (a0, r)"
      and "\<forall>(t, ts, a) \<in> set items.
            tag t \<in> {Some ''*'', Some ''/''} \<and> (\<forall>r. parse_factor (ts @ r) = Inr (a, r))"
      and "rest \<noteq> []" and "tag (hd rest) \<notin> {Some ''*'', Some ''/''}"
    then show "parse_term (first @ concat (map (\<lambda>(t, ts, a). t # ts) items) @ rest) =
               Inr (foldl (\<lambda>l (t, ts, a). BinaryOp (the (tag t)) l a) a0 items, rest)"
      by (rule parse_term_fold)
  qed
next
  show "\<forall>first a0 items rest.
         (\<forall>r. r \<noteq> [] \<and> tag (hd r) \<notin> {Some ''*'', Some ''/''}
            \<longrightarrow> parse_term (first @ r) = Inr (a0, r)) \<and>
         (\<forall>(t, ts, a) \<in> set items.
            tag t \<in> {Some ''+'', Some ''-''} \<and>
            (\<forall>r. r \<noteq> [] \<and> tag (hd r) \<notin> {Some ''*'', Some ''/''}
               \<longrightarrow> parse_term (ts @ r) = Inr (a, r))) \<and>
         rest \<noteq> [] \<and> tag (hd rest) \<notin> {Some ''+'', Some ''-'', Some ''*'', Some ''/''}
         \<longrightarrow> parse_expression (first @ concat (map (\<lambda>(t, ts, a). t # ts) items) @ rest) =
               Inr (foldl (\<lambda>l (t, ts, a). BinaryOp (the (tag t)) l a) a0 items, rest)"
  proof (intro allI impI, elim conjE)
    fix first :: "token list" and a0 :: ast and items :: "(token \<times> token list \<times> ast) list"
      and rest :: "token list"
    assume "\<forall>r. r \<noteq> [] \<and> tag (hd r) \<notin> {Some ''*'', Some ''/''}
            \<longrightarrow> parse_term (first @ r) = Inr (a0, r)"
      and "\<forall>(t, ts, a) \<in> set items.
            tag t \<in> {Some ''+'', Some ''-''} \<and>
            (\<forall>r. r \<noteq> [] \<and> tag (hd r) \<notin> {Some ''*'', Some ''/''}
               \<longrightarrow> parse_term (ts @ r) = Inr (a, r))"
      and "rest \<noteq> []" and "tag (hd rest) \<notin> {Some ''+'', Some ''-'', Some ''*'', Some ''/''}"
    then show "parse_expression (first @ concat (map (\<lambda>(t, ts, a). t # ts) items) @ rest) =
               Inr (foldl (\<lambda>l (t, ts, a). BinaryOp (the (tag t)) l a) a0 items, rest)"
      by (rule parse_expression_fold)
  qed
qed

theorem C2_left_associative_witness:
  "parse_term
     [\<lparr>tag = Some ''number'', position = 0, val = VInt 2\<rparr>,
      \<lparr>tag = Some ''*'', position = 1, val = VStr ''*''\<rparr>,
      \<lparr>tag = Some ''number'', position = 2, val = VInt 4\<rparr>,
      \<lparr>tag = Some ''/'', position = 3, val = VStr ''/''\<rparr>,
      \<lparr>tag = Some ''number'', position = 4, val = VInt 6\<rparr>,
      \<lparr>tag = None, position = 5, val = VNone\<rparr>]
   = Inr (BinaryOp ''/'' (BinaryOp ''*'' (Number (VInt 2)) (Number (VInt 4))) (Number (VInt 6)),
          [\<lparr>tag = None, position = 5, val = VNone\<rparr>])
   \<and> parse_expression
     [\<lparr>tag = Some ''number'', position = 0, val = VInt 8\<rparr>,
      \<lparr>tag = Some ''-'', position = 1, val = VStr ''-''\<rparr>,
      \<lparr>tag = Some ''number'', position = 2, val = VInt 6\<rparr>,
      \<lparr>tag = Some ''+'', position = 3, val = VStr ''+''\<rparr>,
      \<lparr>tag = Some ''number'', position = 4, val = VInt 3\<rparr>,
      \<lparr>tag = None, position = 5, val = VNone\<rparr>]
   = Inr (BinaryOp ''+'' (BinaryOp ''-'' (Number (VInt 8)) (Number (VInt 6))) (Number (VInt 3)),
          [\<lparr>tag = None, position = 5, val = VNone\<rparr>])"
proof
  let ?end = "\<lparr>tag = None, position = 5, val = VNone\<rparr>"
  let ?items = "[(\<lparr>tag = Some ''*'', position = 1, val = VStr ''*''\<rparr>,
                  [\<lparr>tag = Some ''number'', position = 2, val = VInt 4\<rparr>], Number (VInt 4)),
                 (\<lparr>tag = Some ''/'', position = 3, val = VStr ''/''\<rparr>,
                  [\<lparr>tag = Some ''number'', position = 4, val = VInt 6\<rparr>], Number (VInt 6))]"
  have a: "\<forall>r. parse_factor ([\<lparr>tag = Some ''number'', position = 0, val = VInt 2\<rparr>] @ r)
             = Inr (Number (VInt 2), r)"
    by simp
  have b: "\<forall>(t, ts, a) \<in> set ?items.
            tag t \<in> {Some ''*'', Some ''/''} \<and> (\<forall>r. parse_factor (ts @ r) = Inr (a, r))"
    by simp
  have c: "[?end] \<noteq> []" by simp
  have d: "tag (hd [?end]) \<notin> {Some ''*'', Some ''/''}" by simp
  have "parse_term ([\<lparr>tag = Some ''number'', position = 0, val = VInt 2\<rparr>] @
          concat (map (\<lambda>(t, ts, a). t # ts) ?items) @ [?end]) =
        Inr (foldl (\<lambda>l (t, ts, a). BinaryOp (the (tag t)) l a) (Number (VInt 2)) ?items, [?end])"
    by (rule C2_left_associative [THEN conjunct2, THEN conjunct2, THEN conjunct2, THEN conjunct2,
          THEN conjunct1, rule_format, OF conjI [OF a conjI [OF b conjI [OF c d]]]])
  then show "parse_term
     [\<lparr>tag = Some ''number'', position = 0, val = VInt 2\<rparr>,
      \<lparr>tag = Some ''*'', position = 1, val = VStr ''*''\<rparr>,
      \<lparr>tag = Some ''number'', position = 2, val = VInt 4\<rparr>,
      \<lparr>tag = Some ''/'', position = 3, val = VStr ''/''\<rparr>,
      \<lparr>tag = Some ''number'', position = 4, val = VInt 6\<rparr>,
      \<lparr>tag = None, position = 5, val = VNone\<rparr>]
   = Inr (BinaryOp ''/'' (BinaryOp ''*'' (Number (VInt 2)) (Number (VInt 4))) (Number (VInt 6)),
          [\<lparr>tag = None, position = 5, val = VNone\<rparr>])"
    by simp
next
  let ?end = "\<lparr>tag = None, position = 5, val = VNone\<rparr>"
  let ?items = "[(\<lparr>tag = Some ''-'', position = 1, val = VStr ''-''\<rparr>,
                  [\<lparr>tag = Some ''number'', position = 2, val = VInt 6\<rparr>], Number (VInt 6)),
                 (\<lparr>tag = Some ''+'', position = 3, val = VStr ''+''\<rparr>,
                  [\<lparr>tag = Some ''number'', position = 4, val = VInt 3\<rparr>], Number (VInt 3))]"
  have a: "\<forall>r. r \<noteq> [] \<and> tag (hd r) \<notin> {Some ''*'', Some ''/''}
            \<longrightarrow> parse_term ([\<lparr>tag = Some ''number'', position = 0, val = VInt 8\<rparr>] @ r)
                = Inr (Number (VInt 8), r)"
    using parse_term_number [of "\<lparr>tag = Some ''number'', position = 0, val = VInt 8\<rparr>"]
    by simp
  have b: "\<forall>(t, ts, a) \<in> set ?items.
            tag t \<in> {Some ''+'', Some ''-''} \<and>
            (\<forall>r. r \<noteq> [] \<and> tag (hd r) \<notin> {Some ''*'', Some ''/''}
               \<longrightarrow> parse_term (ts @ r) = Inr (a, r))"
    using parse_term_number [of "\<lparr>tag = Some ''number'', position = 2, val = VInt 6\<rparr>"]
      parse_term_number [of "\<lparr>tag = Some ''number'', position = 4, val = VInt 3\<rparr>"]
    by simp
  have c: "[?end] \<noteq> []" by simp
  have d: "tag (hd [?end]) \<notin> {Some ''+'', Some ''-'', Some ''*'', Some ''/''}" by simp
  have "parse_expression ([\<lparr>tag = Some ''number'', position = 0, val = VInt 8\<rparr>] @
          concat (map (\<lambda>(t, ts, a). t # ts) ?items) @ [?end]) =
        Inr (foldl (\<lambda>l (t, ts, a). BinaryOp (the (tag t)) l a) (Number (VInt 8)) ?items, [?end])"
    by (rule C2_left_associative [THEN conjunct2, THEN conjunct2, THEN conjunct2, THEN conjunct2,
          THEN conjunct2, rule_format, OF conjI [OF a conjI [OF b conjI [OF c d]]]])
  then show "parse_expression
     [\<lparr>tag = Some ''number'', position = 0, val = VInt 8\<rparr>,
      \<lparr>tag = Some ''-'', position = 1, val = VStr ''-''\<rparr>,
      \<lparr>tag = Some ''number'', position = 2, val = VInt 6\<rparr>,
      \<lparr>tag = Some ''+'', position = 3, val = VStr ''+''\<rparr>,
      \<lparr>tag = Some ''number'', position = 4, val = VInt 3\<rparr>,
      \<lparr>tag = None, position = 5, val = VNone\<rparr>]
   = Inr (BinaryOp ''+'' (BinaryOp ''-'' (Number (VInt 8)) (Number (VInt 6))) (Number (VInt 3)),
          [\<lparr>tag = None, position = 5, val = VNone\<rparr>])"
    by simp
qed

text \<open>
  C8. Whenever \<open>parse_statement\<close> succeeds, \<open>parse\<close> returns exactly its tree and drops
  the tokens left. Nothing checks that only the end marker is left: the tokens after the
  first unconsumed one can be replaced by any others, and \<open>parse\<close> still returns the same
  tree. So \<^verbatim>\<open>1 2 )\<close> parses as the number 1.
\<close>

theorem C8_trailing_tokens_ignored:
  "(\<forall>tokens ast rest.
      parse_statement tokens = Inr (ast, rest) \<longrightarrow>
        parse tokens = Inr ast \<and>
        (\<exists>pre t r'. tokens = pre @ t # r' \<and> rest = t # r' \<and>
           (\<forall>garbage. parse (pre @ t # garbage) = Inr ast)))
   \<and> (case tokenize ''1 2 )'' of Inl e \<Rightarrow> Inl e | Inr ts \<Rightarrow> parse ts) = Inr (Number (VInt 1))"
proof
  show "\<forall>tokens ast rest.
      parse_statement tokens = Inr (ast, rest) \<longrightarrow>
        parse tokens = Inr ast \<and>
        (\<exists>pre t r'. tokens = pre @ t # r' \<and> rest = t # r' \<and>
           (\<forall>garbage. parse (pre @ t # garbage) = Inr ast))"
  proof (intro allI impI)
    fix tokens ast rest
    assume s: "parse_statement tokens = Inr (ast, rest)"
    then have p: "parse tokens = Inr ast"
      by (simp add: parse_def)
    from parse_statement_local [OF s] obtain pre t r' where
      l: "tokens = pre @ t # r'" "rest = t # r'"
         "\<forall>g. parse_statement (pre @ t # g) = Inr (ast, t # g)"
      by blast
    from l(3) have "\<forall>garbage. parse (pre @ t # garbage) = Inr ast"
      by (simp add: parse_def)
    with p l(1,2) show
      "parse tokens = Inr ast \<and>
        (\<exists>pre t r'. tokens = pre @ t # r' \<and> rest = t # r' \<and>
           (\<forall>garbage. parse (pre @ t # garbage) = Inr ast))"
      by blast
  qed
next
  show "(case tokenize ''1 2 )'' of Inl e \<Rightarrow> Inl e | Inr ts \<Rightarrow> parse ts) = Inr (Number (VInt 1))"
    by code_simp
qed

theorem C8_trailing_tokens_ignored_witness:
  "parse_statement
     [\<lparr>tag = Some ''number'', position = 0, val = VInt 1\<rparr>,
      \<lparr>tag = Some ''number'', position = 2, val = VInt 2\<rparr>,
      \<lparr>tag = Some '')'', position = 4, val = VStr '')''\<rparr>,
      \<lparr>tag = None, position = 5, val = VNone\<rparr>]
   = Inr (Number (VInt 1),
          [\<lparr>tag = Some ''number'', position = 2, val = VInt 2\<rparr>,
           \<lparr>tag = Some '')'', position = 4, val = VStr '')''\<rparr>,
           \<lparr>tag = None, position = 5, val = VNone\<rparr>])
   \<and> parse
     [\<lparr>tag = Some ''number'', position = 0, val = VInt 1\<rparr>,
      \<lparr>tag = Some ''number'', position = 2, val = VInt 2\<rparr>,
      \<lparr>tag = Some '')'', position = 4, val = VStr '')''\<rparr>,
      \<lparr>tag = None, position = 5, val = VNone\<rparr>]
   = Inr (Number (VInt 1))"
proof -
  have s: "parse_statement
     [\<lparr>tag = Some ''number'', position = 0, val = VInt 1\<rparr>,
      \<lparr>tag = Some ''number'', position = 2, val = VInt 2\<rparr>,
      \<lparr>tag = Some '')'', position = 4, val = VStr '')''\<rparr>,
      \<lparr>tag = None, position = 5, val = VNone\<rparr>]
   = Inr (Number (VInt 1),
          [\<lparr>tag = Some ''number'', position = 2, val = VInt 2\<rparr>,
           \<lparr>tag = Some '')'', position = 4, val = VStr '')''\<rparr>,
           \<lparr>tag = None, position = 5, val = VNone\<rparr>])"
    by (simp add: parse_statement_def parse_expression.simps parse_term.simps)
  have p: "parse
     [\<lparr>tag = Some ''number'', position = 0, val = VInt 1\<rparr>,
      \<lparr>tag = Some ''number'', position = 2, val = VInt 2\<rparr>,
      \<lparr>tag = Some '')'', position = 4, val = VStr '')''\<rparr>,
      \<lparr>tag = None, position = 5, val = VNone\<rparr>]
   = Inr (Number (VInt 1))"
    by (rule C8_trailing_tokens_ignored [THEN conjunct1, rule_format, OF s, THEN conjunct1])
  show ?thesis
    by (intro conjI s p)
qed

section \<open>Claims about parse failures\<close>

text \<open>
  C6, as stated: every parse failure raises an error that carries the unexpected token's
  tag and position, also when the closing parenthesis is missing. It fails on \<^verbatim>\<open>(1\<close>:
  the token after the parenthesized expression is the end marker, the \<^verbatim>\<open>assert\<close> of
  \<open>parse_factor\<close> fails, and an \<open>AssertionError\<close> carries neither a tag nor a position.
\<close>

theorem C6_counterexample:
  "tokenize ''(1'' =
     Inr [\<lparr>tag = Some ''('', position = 0, val = VStr ''(''\<rparr>,
          \<lparr>tag = Some ''number'', position = 1, val = VInt 1\<rparr>,
          \<lparr>tag = None, position = 2, val = VNone\<rparr>]
   \<and> parse [\<lparr>tag = Some ''('', position = 0, val = VStr ''(''\<rparr>,
             \<lparr>tag = Some ''number'', position = 1, val = VInt 1\<rparr>,
             \<lparr>tag = None, position = 2, val = VNone\<rparr>]
       = Inl AssertionError"
proof
  show "tokenize ''(1'' =
     Inr [\<lparr>tag = Some ''('', position = 0, val = VStr ''(''\<rparr>,
          \<lparr>tag = Some ''number'', position = 1, val = VInt 1\<rparr>,
          \<lparr>tag = None, position = 2, val = VNone\<rparr>]"
    by code_simp
next
  show "parse [\<lparr>tag = Some ''('', position = 0, val = VStr ''(''\<rparr>,
             \<lparr>tag = Some ''number'', position = 1, val = VInt 1\<rparr>,
             \<lparr>tag = None, position = 2, val = VNone\<rparr>]
       = Inl AssertionError"
    by (simp add: parse_def parse_statement_def parse_expression.simps parse_term.simps)
qed

text \<open>
  C6, amended: a head token that is neither a number nor \<^verbatim>\<open>(\<close> makes \<open>parse_factor\<close>
  raise its exception, which names the tag and the position of that token; a token other
  than \<^verbatim>\<open>)\<close> after a parenthesized expression fails the \<^verbatim>\<open>assert\<close>, which names
  nothing; and on a token list that ends with the end marker and holds at most 100
  opening parentheses, these two are the only ways in which \<open>parse\<close> fails, the
  exception naming a token of the list.

  The last part speaks of the exceptions that the statements of the parser raise. The
  bound on the parentheses keeps the input away from the one failure that is not a
  statement of the parser: every opening parenthesis nests three more calls
  (\<open>parse_factor\<close>, \<open>parse_expression\<close>, \<open>parse_term\<close>), and from some 330 nested
  parentheses on the interpreter, at its default recursion limit of 1000 frames, stops
  the parser with a \<^verbatim>\<open>RecursionError\<close>, which is outside what is modelled here.
\<close>

theorem C6_parse_failures:
  "(\<forall>t rest.
      tag t \<noteq> Some ''number'' \<and> tag t \<noteq> Some ''(''
      \<longrightarrow> parse_factor (t # rest) = Inl (UnexpectedToken (tag t) (position t)))
   \<and> (\<forall>t rest node t' rest'.
        tag t = Some ''('' \<and> parse_expression rest = Inr (node, t' # rest') \<and> tag t' \<noteq> Some '')''
        \<longrightarrow> parse_factor (t # rest) = Inl AssertionError)
   \<and> (\<forall>tokens e.
        tokens \<noteq> [] \<and> tag (last tokens) = None \<and>
        length (filter (\<lambda>t. tag t = Some ''('') tokens) \<le> 100 \<and>
        parse tokens = Inl e
        \<longrightarrow> e = AssertionError \<or>
            (\<exists>t \<in> set tokens. e = UnexpectedToken (tag t) (position t)))"
proof (intro conjI)
  show "\<forall>t rest.
      tag t \<noteq> Some ''number'' \<and> tag t \<noteq> Some ''(''
      \<longrightarrow> parse_factor (t # rest) = Inl (UnexpectedToken (tag t) (position t))"
    by simp
next
  show "\<forall>t rest node t' rest'.
        tag t = Some ''('' \<and> parse_expression rest = Inr (node, t' # rest') \<and> tag t' \<noteq> Some '')''
        \<longrightarrow> parse_factor (t # rest) = Inl AssertionError"
    by simp
next
  show "\<forall>tokens e.
        tokens \<noteq> [] \<and> tag (last tokens) = None \<and>
        length (filter (\<lambda>t. tag t = Some ''('') tokens) \<le> 100 \<and>
        parse tokens = Inl e
        \<longrightarrow> e = AssertionError \<or>
            (\<exists>t \<in> set tokens. e = UnexpectedToken (tag t) (position t))"
    using parse_error_kinds by blast
qed

theorem C6_parse_failures_witness:
  "tag \<lparr>tag = Some ''identifier'', position = 2, val = VStr ''x''\<rparr> \<noteq> Some ''number''
   \<and> tag \<lparr>tag = Some ''identifier'', position = 2, val = VStr ''x''\<rparr> \<noteq> Some ''(''
   \<and> parse_factor [\<lparr>tag = Some ''identifier'', position = 2, val = VStr ''x''\<rparr>,
                    \<lparr>tag = None, position = 3, val = VNone\<rparr>]
       = Inl (UnexpectedToken (Some ''identifier'') 2)
   \<and> parse [\<lparr>tag = Some ''('', position = 0, val = VStr ''(''\<rparr>,
             \<lparr>tag = Some ''number'', position = 1, val = VInt 1\<rparr>,
             \<lparr>tag = Some ''+'', position = 2, val = VStr ''+''\<rparr>,
             \<lparr>tag = None, position = 3, val = VNone\<rparr>]
       = Inl (UnexpectedToken None 3)
   \<and> (UnexpectedToken None 3 = AssertionError \<or>
        (\<exists>t \<in> set [\<lparr>tag = Some ''('', position = 0, val = VStr ''(''\<rparr>,
                     \<lparr>tag = Some ''number'', position = 1, val = VInt 1\<rparr>,
                     \<lparr>tag = Some ''+'', position = 2, val = VStr ''+''\<rparr>,
                     \<lparr>tag = None, position = 3, val = VNone\<rparr>].
           UnexpectedToken None 3 = UnexpectedToken (tag t) (position t)))"
proof -
  let ?tokens = "[\<lparr>tag = Some ''('', position = 0, val = VStr ''(''\<rparr>,
                  \<lparr>tag = Some ''number'', position = 1, val = VInt 1\<rparr>,
                  \<lparr>tag = Some ''+'', position = 2, val = VStr ''+''\<rparr>,
                  \<lparr>tag = None, position = 3, val = VNone\<rparr>]"
  have n: "tag \<lparr>tag = Some ''identifier'', position = 2, val = VStr ''x''\<rparr> \<noteq> Some ''number''"
    by simp
  have p: "tag \<lparr>tag = Some ''identifier'', position = 2, val = VStr ''x''\<rparr> \<noteq> Some ''(''"
    by simp
  have "parse_factor (\<lparr>tag = Some ''identifier'', position = 2, val = VStr ''x''\<rparr> #
                      [\<lparr>tag = None, position = 3, val = VNone\<rparr>])
       = Inl (UnexpectedToken
                (tag \<lparr>tag = Some ''identifier'', position = 2, val = VStr ''x''\<rparr>)
                (position \<lparr>tag = Some ''identifier'', position = 2, val = VStr ''x''\<rparr>))"
    by (rule C6_parse_failures [THEN conjunct1, rule_format, OF conjI [OF n p]])
  then have f: "parse_factor [\<lparr>tag = Some ''identifier'', position = 2, val = VStr ''x''\<rparr>,
                    \<lparr>tag = None, position = 3, val = VNone\<rparr>]
       = Inl (UnexpectedToken (Some ''identifier'') 2)"
    by simp
  have a: "?tokens \<noteq> []" by simp
  have b: "tag (last ?tokens) = None" by simp
  have c: "length (filter (\<lambda>t. tag t = Some ''('') ?tokens) \<le> 100" by simp
  have d: "parse ?tokens = Inl (UnexpectedToken None 3)"
    by (simp add: parse_def parse_statement_def parse_expression.simps parse_term.simps)
  have e: "UnexpectedToken None 3 = AssertionError \<or>
        (\<exists>t \<in> set ?tokens. UnexpectedToken None 3 = UnexpectedToken (tag t) (position t))"
    by (rule C6_parse_failures [THEN conjunct2, THEN conjunct2, rule_format,
          OF conjI [OF a conjI [OF b conjI [OF c d]]]])
  show ?thesis
    by (intro conjI n p f d e)
qed

section \<open>Claims about the token list\<close>

text \<open>
  C7: when \<open>tokenize\<close> succeeds, the positions of the returned tokens are in strictly
  increasing order, hence also in non-decreasing order; the list is not empty and its last
  token is the end marker, with tag \<open>None\<close>, value \<open>None\<close> and the length of the input as
  position; every token before it carries a tag of the pattern table and a value, so the
  end marker is the only token with tag \<open>None\<close>.
\<close>

theorem C7_token_list_invariant:
  assumes "tokenize s = Inr toks"
  shows "sorted_wrt (<) (map position toks) \<and> sorted (map position toks) \<and>
         toks \<noteq> [] \<and> last toks = \<lparr>tag = None, position = length s, val = VNone\<rparr> \<and>
         (\<forall>t \<in> set (butlast toks).
            (\<exists>g \<in> snd ` set patterns. tag t = Some g) \<and> val t \<noteq> VNone) \<and>
         length (filter (\<lambda>t. tag t = None) toks) = 1"
proof -
  from tokenize_result [OF assms] have
    r: "toks \<noteq> []" "last toks = \<lparr>tag = None, position = length s, val = VNone\<rparr>"
       "\<forall>t \<in> set (butlast toks).
          (\<exists>g \<in> snd ` set patterns. tag t = Some g) \<and> val t \<noteq> VNone \<and> position t < length s"
       "sorted_wrt (<) (map position toks)"
    by simp_all
  from r(4) have s: "sorted (map position toks)" by (rule strict_sorted_imp_sorted)
  from r(3) have "filter (\<lambda>t. tag t = None) (butlast toks) = []"
    by (auto simp: filter_empty_conv)
  moreover from r(1) have "toks = butlast toks @ [last toks]" by simp
  then have "filter (\<lambda>t. tag t = None) toks =
             filter (\<lambda>t. tag t = None) (butlast toks) @ filter (\<lambda>t. tag t = None) [last toks]"
    by (metis filter_append)
  ultimately have "length (filter (\<lambda>t. tag t = None) toks) = 1"
    using r(2) by simp
  with r s show ?thesis by blast
qed

theorem C7_token_list_invariant_witness:
  "tokenize ''1 + 22'' =
     Inr [\<lparr>tag = Some ''number'', position = 0, val = VInt 1\<rparr>,
          \<lparr>tag = Some ''+'', position = 2, val = VStr ''+''\<rparr>,
          \<lparr>tag = Some ''number'', position = 4, val = VInt 22\<rparr>,
          \<lparr>tag = None, position = 6, val = VNone\<rparr>]
   \<and> sorted_wrt (<) (map position
       [\<lparr>tag = Some ''number'', position = 0, val = VInt 1\<rparr>,
        \<lparr>tag = Some ''+'', position = 2, val = VStr ''+''\<rparr>,
        \<lparr>tag = Some ''number'', position = 4, val = VInt 22\<rparr>,
        \<lparr>tag = None, position = 6, val = VNone\<rparr>])
   \<and> last [\<lparr>tag = Some ''number'', position = 0, val = VInt 1\<rparr>,
           \<lparr>tag = Some ''+'', position = 2, val = VStr ''+''\<rparr>,
           \<lparr>tag = Some ''number'', position = 4, val = VInt 22\<rparr>,
           \<lparr>tag = None, position = 6, val = VNone\<rparr>]
       = \<lparr>tag = None, position = length ''1 + 22'', val = VNone\<rparr>"
proof -
  have t: "tokenize ''1 + 22'' =
     Inr [\<lparr>tag = Some ''number'', position = 0, val = VInt 1\<rparr>,
          \<lparr>tag = Some ''+'', position = 2, val = VStr ''+''\<rparr>,
          \<lparr>tag = Some ''number'', position = 4, val = VInt 22\<rparr>,
          \<lparr>tag = None, position = 6, val = VNone\<rparr>]"
    by code_simp
  note c = C7_token_list_invariant [OF t]
  show ?thesis
    by (intro conjI t c [THEN conjunct1] c [THEN conjunct2, THEN conjunct2, THEN conjunct2, THEN conjunct1])
qed

section \<open>Claims about scanning failures\<close>

text \<open>
  C5: \<open>tokenize\<close> fails with \<open>SyntaxError\<close> exactly when at some position that the scan
  reaches no rule but the last one, the catch-all \<^verbatim>\<open>error\<close> rule, matches; the turn of
  the loop that meets such a position returns the error whatever tokens were collected
  before, so no token is made for the character, the scan does not go on, and no token
  list is returned; and \<^verbatim>\<open>$1+2\<close> fails with \<open>SyntaxError\<close>. The only other failure of
  \<open>tokenize\<close> is the \<open>ValueError\<close> of \<^verbatim>\<open>int\<close> on more than 4300 digits. A character that
  no rule but the last one can consume (none of letter, digit, underscore, decimal point,
  operator, parenthesis, whitespace) makes \<open>tokenize\<close> fail wherever it stands.

  The positions are those of \<open>scan_position\<close>, where the loop applies the patterns: in
  \<^verbatim>\<open>1.\<close> the point alone would match the last rule only, but it is consumed by the
  number that starts at position 0.
\<close>

theorem C5_syntax_error:
  "(tokenize s = Inl SyntaxError \<longleftrightarrow>
      (\<exists>pos. scan_position s pos \<and> pos < length s \<and>
         list_all (\<lambda>(p, t). p (drop pos s) = None) (butlast patterns) \<and>
         match_any (drop pos s) \<noteq> None))
   \<and> (\<forall>pos acc.
        pos < length s \<and>
        list_all (\<lambda>(p, t). p (drop pos s) = None) (butlast patterns) \<and>
        match_any (drop pos s) \<noteq> None
        \<longrightarrow> tokenize_loop s pos acc = Inl SyntaxError)
   \<and> (\<forall>e. tokenize s = Inl e \<longrightarrow> e = SyntaxError \<or> e = ValueError)
   \<and> (\<forall>c. c \<in> set s \<and> \<not> is_ident_char c \<and> c \<notin> set ''+-*/().'' \<and> \<not> is_space c
        \<longrightarrow> tokenize s = Inl SyntaxError \<or> tokenize s = Inl ValueError)
   \<and> tokenize ''$1+2'' = Inl SyntaxError"
proof (intro conjI)
  show "tokenize s = Inl SyntaxError \<longleftrightarrow>
      (\<exists>pos. scan_position s pos \<and> pos < length s \<and>
         list_all (\<lambda>(p, t). p (drop pos s) = None) (butlast patterns) \<and>
         match_any (drop pos s) \<noteq> None)"
  proof
    assume "tokenize s = Inl SyntaxError"
    then have "tokenize_loop s 0 [] = Inl SyntaxError" by (simp add: tokenize_def)
    from tokenize_loop_failure [OF scan_start this] obtain q n where
      q: "scan_position s q" "q < length s"
         "try_patterns patterns (drop q s) = (Some n, ''error'')"
      by auto
    from q(3) have
      "list_all (\<lambda>(p, t). p (drop q s) = None) (butlast patterns) \<and> match_any (drop q s) = Some n"
      by (simp only: only_error_rule)
    with q(1,2) show "\<exists>pos. scan_position s pos \<and> pos < length s \<and>
         list_all (\<lambda>(p, t). p (drop pos s) = None) (butlast patterns) \<and>
         match_any (drop pos s) \<noteq> None"
      by auto
  next
    assume "\<exists>pos. scan_position s pos \<and> pos < length s \<and>
         list_all (\<lambda>(p, t). p (drop pos s) = None) (butlast patterns) \<and>
         match_any (drop pos s) \<noteq> None"
    then obtain pos n where
      p: "scan_position s pos" "pos < length s"
         "list_all (\<lambda>(p, t). p (drop pos s) = None) (butlast patterns)"
         "match_any (drop pos s) = Some n"
      by auto
    from p(3,4) have "try_patterns patterns (drop pos s) = (Some n, ''error'')"
      by (simp only: only_error_rule)
    from tokenize_loop_error [OF p(2) this] scan_position_loop [OF p(1)]
    show "tokenize s = Inl SyntaxError" by auto
  qed
next
  show "\<forall>pos acc.
        pos < length s \<and>
        list_all (\<lambda>(p, t). p (drop pos s) = None) (butlast patterns) \<and>
        match_any (drop pos s) \<noteq> None
        \<longrightarrow> tokenize_loop s pos acc = Inl SyntaxError"
  proof (intro allI impI, elim conjE)
    fix pos acc
    assume l: "pos < length s"
      and a: "list_all (\<lambda>(p, t). p (drop pos s) = None) (butlast patterns)"
      and m: "match_any (drop pos s) \<noteq> None"
    from m obtain n where "match_any (drop pos s) = Some n" by auto
    with a have "try_patterns patterns (drop pos s) = (Some n, ''error'')"
      by (simp only: only_error_rule)
    from tokenize_loop_error [OF l this]
    show "tokenize_loop s pos acc = Inl SyntaxError" .
  qed
next
  show "\<forall>e. tokenize s = Inl e \<longrightarrow> e = SyntaxError \<or> e = ValueError"
  proof (intro allI impI)
    fix e
    assume "tokenize s = Inl e"
    then have "tokenize_loop s 0 [] = Inl e" by (simp add: tokenize_def)
    from tokenize_loop_failure [OF scan_start this]
    show "e = SyntaxError \<or> e = ValueError" by auto
  qed
next
  show "\<forall>c. c \<in> set s \<and> \<not> is_ident_char c \<and> c \<notin> set ''+-*/().'' \<and> \<not> is_space c
        \<longrightarrow> tokenize s = Inl SyntaxError \<or> tokenize s = Inl ValueError"
  proof (intro allI impI, elim conjE)
    fix c
    assume c: "c \<in> set s" "\<not> is_ident_char c" "c \<notin> set ''+-*/().''" "\<not> is_space c"
    show "tokenize s = Inl SyntaxError \<or> tokenize s = Inl ValueError"
    proof (cases "tokenize s")
      case (Inr toks)
      from tokenize_text [OF this] c show ?thesis by blast
    next
      case (Inl e)
      then have "tokenize_loop s 0 [] = Inl e" by (simp add: tokenize_def)
      from tokenize_loop_failure [OF scan_start this] have "e = SyntaxError \<or> e = ValueError"
        by auto
      with Inl show ?thesis by auto
    qed
  qed
next
  show "tokenize ''$1+2'' = Inl SyntaxError" by code_simp
qed

theorem C5_syntax_error_witness:
  "scan_position ''1 $2'' 2 \<and> 2 < length ''1 $2''
   \<and> list_all (\<lambda>(p, t). p (drop 2 ''1 $2'') = None) (butlast patterns)
   \<and> match_any (drop 2 ''1 $2'') \<noteq> None
   \<and> tokenize ''1 $2'' = Inl SyntaxError
   \<and> tokenize_loop ''1 $2'' 2 [\<lparr>tag = Some ''number'', position = 0, val = VInt 1\<rparr>]
       = Inl SyntaxError"
proof -
  have s1: "scan_position ''1 $2'' 1"
    by (rule scan_next [OF scan_start, where n = 1 and t = "''number''" and v = "VInt 1"])
      code_simp+
  have s: "scan_position ''1 $2'' 2"
    by (rule scan_next [OF s1, where n = 1 and t = "''whitespace''" and v = "VStr '' ''"])
      code_simp+
  have l: "2 < length ''1 $2''" by simp
  have a: "list_all (\<lambda>(p, t). p (drop 2 ''1 $2'') = None) (butlast patterns)"
    by code_simp
  have m: "match_any (drop 2 ''1 $2'') \<noteq> None" by code_simp
  have "\<exists>pos. scan_position ''1 $2'' pos \<and> pos < length ''1 $2'' \<and>
         list_all (\<lambda>(p, t). p (drop pos ''1 $2'') = None) (butlast patterns) \<and>
         match_any (drop pos ''1 $2'') \<noteq> None"
    by (intro exI [of _ 2] conjI s l a m)
  then have t: "tokenize ''1 $2'' = Inl SyntaxError"
    by (rule C5_syntax_error [THEN conjunct1, THEN iffD2])
  have u: "tokenize_loop ''1 $2'' 2 [\<lparr>tag = Some ''number'', position = 0, val = VInt 1\<rparr>]
       = Inl SyntaxError"
    by (rule C5_syntax_error [THEN conjunct2, THEN conjunct1, rule_format,
          OF conjI [OF l conjI [OF a m]]])
  show ?thesis
    by (intro conjI s l a m t u)
qed

section \<open>Claims about numbers and keywords\<close>



text \<open>
  C9, as stated: every input that starts with \<^verbatim>\<open>print\<close> followed by more identifier
  characters gives a \<^verbatim>\<open>print\<close> token and then an identifier token for the remaining
  characters. It fails on \<^verbatim>\<open>print1\<close>: the digit is an identifier character, but the
  remaining text \<^verbatim>\<open>1\<close> is taken by the number rule, which stands before the identifier
  rule, and the second token is the number 1.
\<close>

theorem C9_counterexample:
  "take 5 ''print1'' = ''print''
   \<and> drop 5 ''print1'' = ''1''
   \<and> list_all is_ident_char ''1''
   \<and> tokenize ''print1'' =
       Inr [\<lparr>tag = Some ''print'', position = 0, val = VStr ''print''\<rparr>,
            \<lparr>tag = Some ''number'', position = 5, val = VInt 1\<rparr>,
            \<lparr>tag = None, position = 6, val = VNone\<rparr>]"
proof (intro conjI)
  show "take 5 ''print1'' = ''print''" by simp
next
  show "drop 5 ''print1'' = ''1''" by simp
next
  show "list_all is_ident_char ''1''" by (simp add: is_ident_char_def is_digit_def)
next
  show "tokenize ''print1'' =
       Inr [\<lparr>tag = Some ''print'', position = 0, val = VStr ''print''\<rparr>,
            \<lparr>tag = Some ''number'', position = 5, val = VInt 1\<rparr>,
            \<lparr>tag = None, position = 6, val = VNone\<rparr>]"
    by code_simp
qed

text \<open>
  C9, amended: the keyword needs no word boundary. On every input whose first five
  characters are \<^verbatim>\<open>print\<close> the \<^verbatim>\<open>print\<close> rule matches these five characters, and the
  first token is tagged \<^verbatim>\<open>print\<close> at position 0, whatever follows. When what follows is
  a word of identifier characters that starts with a letter or an underscore and does
  not itself start with \<^verbatim>\<open>print\<close>, the result is that token, then one identifier token
  for the word at position 5, then the end marker, although the identifier rule alone
  matches the whole input. So \<^verbatim>\<open>printer\<close> is \<^verbatim>\<open>print\<close> and the identifier \<^verbatim>\<open>er\<close>.
\<close>

theorem C9_keyword_prefix:
  "(\<forall>s. take 5 s = ''print''
      \<longrightarrow> try_patterns patterns s = (Some 5, ''print'') \<and>
          tokenize s =
            tokenize_loop s 5 [\<lparr>tag = Some ''print'', position = 0, val = VStr ''print''\<rparr>])
   \<and> (\<forall>w. w \<noteq> [] \<and> is_ident_start (hd w) \<and> list_all is_ident_char w \<and> take 5 w \<noteq> ''print''
        \<longrightarrow> match_identifier (''print'' @ w) = Some (5 + length w) \<and>
            tokenize (''print'' @ w) =
              Inr [\<lparr>tag = Some ''print'', position = 0, val = VStr ''print''\<rparr>,
                   \<lparr>tag = Some ''identifier'', position = 5, val = VStr w\<rparr>,
                   \<lparr>tag = None, position = 5 + length w, val = VNone\<rparr>])
   \<and> tokenize ''printer'' =
        Inr [\<lparr>tag = Some ''print'', position = 0, val = VStr ''print''\<rparr>,
             \<lparr>tag = Some ''identifier'', position = 5, val = VStr ''er''\<rparr>,
             \<lparr>tag = None, position = 7, val = VNone\<rparr>]"
proof (intro conjI)
  show "\<forall>s. take 5 s = ''print''
      \<longrightarrow> try_patterns patterns s = (Some 5, ''print'') \<and>
          tokenize s =
            tokenize_loop s 5 [\<lparr>tag = Some ''print'', position = 0, val = VStr ''print''\<rparr>]"
    using try_patterns_print tokenize_print_first by blast
next
  show "\<forall>w. w \<noteq> [] \<and> is_ident_start (hd w) \<and> list_all is_ident_char w \<and> take 5 w \<noteq> ''print''
        \<longrightarrow> match_identifier (''print'' @ w) = Some (5 + length w) \<and>
            tokenize (''print'' @ w) =
              Inr [\<lparr>tag = Some ''print'', position = 0, val = VStr ''print''\<rparr>,
                   \<lparr>tag = Some ''identifier'', position = 5, val = VStr w\<rparr>,
                   \<lparr>tag = None, position = 5 + length w, val = VNone\<rparr>]"
  proof (intro allI impI, elim conjE)
    fix w
    assume w: "w \<noteq> []" "is_ident_start (hd w)" "list_all is_ident_char w"
      "take 5 w \<noteq> ''print''"
    have "list_all is_ident_char ''print''"
      by (simp add: is_ident_char_def is_letter_def)
    with w(3) have "list_all is_ident_char (''print'' @ w)" by simp
    moreover have "is_ident_start (hd (''print'' @ w))"
      by (simp add: is_ident_start_def is_letter_def)
    ultimately have "match_identifier ((''print'' @ w) @ []) = Some (length (''print'' @ w))"
      by (intro match_identifier_word) simp_all
    then have "match_identifier (''print'' @ w) = Some (5 + length w)" by simp
    with tokenize_print_word [OF w]
    show "match_identifier (''print'' @ w) = Some (5 + length w) \<and>
            tokenize (''print'' @ w) =
              Inr [\<lparr>tag = Some ''print'', position = 0, val = VStr ''print''\<rparr>,
                   \<lparr>tag = Some ''identifier'', position = 5, val = VStr w\<rparr>,
                   \<lparr>tag = None, position = 5 + length w, val = VNone\<rparr>]"
      by simp
  qed
next
  show "tokenize ''printer'' =
        Inr [\<lparr>tag = Some ''print'', position = 0, val = VStr ''print''\<rparr>,
             \<lparr>tag = Some ''identifier'', position = 5, val = VStr ''er''\<rparr>,
             \<lparr>tag = None, position = 7, val = VNone\<rparr>]"
    by code_simp
qed

theorem C9_keyword_prefix_witness:
  "''_x1'' \<noteq> [] \<and> is_ident_start (hd ''_x1'') \<and> list_all is_ident_char ''_x1''
   \<and> take 5 ''_x1'' \<noteq> ''print''
   \<and> tokenize ''print_x1'' =
        Inr [\<lparr>tag = Some ''print'', position = 0, val = VStr ''print''\<rparr>,
             \<lparr>tag = Some ''identifier'', position = 5, val = VStr ''_x1''\<rparr>,
             \<lparr>tag = None, position = 8, val = VNone\<rparr>]"
proof -
  have a: "''_x1'' \<noteq> [] \<and> is_ident_start (hd ''_x1'') \<and> list_all is_ident_char ''_x1''
             \<and> take 5 ''_x1'' \<noteq> ''print''"
    by (simp add: is_ident_start_def is_ident_char_def is_letter_def is_digit_def)
  have "tokenize (''print'' @ ''_x1'') =
              Inr [\<lparr>tag = Some ''print'', position = 0, val = VStr ''print''\<rparr>,
                   \<lparr>tag = Some ''identifier'', position = 5, val = VStr ''_x1''\<rparr>,
                   \<lparr>tag = None, position = 5 + length ''_x1'', val = VNone\<rparr>]"
    by (rule C9_keyword_prefix [THEN conjunct2, THEN conjunct1, rule_format, OF a,
          THEN conjunct2])
  then have t: "tokenize ''print_x1'' =
        Inr [\<lparr>tag = Some ''print'', position = 0, val = VStr ''print''\<rparr>,
             \<lparr>tag = Some ''identifier'', position = 5, val = VStr ''_x1''\<rparr>,
             \<lparr>tag = None, position = 8, val = VNone\<rparr>]"
    by simp
  show ?thesis
    by (intro conjI a [THEN conjunct1] a [THEN conjunct2, THEN conjunct1]
        a [THEN conjunct2, THEN conjunct2, THEN conjunct1]
        a [THEN conjunct2, THEN conjunct2, THEN conjunct2] t)
qed

end
